theory Spec2Isabelle
  imports Main
begin

section \<open>The values of the JavaScript program\<close>

text \<open>
  The source is \<^verbatim>\<open>src/DRS.js\<close>: the reader and builder of DRS archives. A Node
  \<^verbatim>\<open>Buffer\<close> is a list of bytes; a byte is a \<^typ>\<open>char\<close> (eight bits). The strings
  the program handles (type tags, the copyright text, the palette magic) are modelled as
  \<^typ>\<open>string\<close>, so a code unit is limited to \<open>0..255\<close> here. JavaScript numbers that hold
  integers are \<^typ>\<open>int\<close>; \<^verbatim>\<open>NaN\<close>, \<^verbatim>\<open>null\<close> and \<^verbatim>\<open>undefined\<close> are \<open>None\<close>.
\<close>

type_synonym byte = char
type_synonym buffer = "byte list"

datatype error =
    Error string        \<comment> \<open>\<^verbatim>\<open>new Error(msg)\<close>\<close>
  | TypeError string    \<comment> \<open>\<^verbatim>\<open>TypeError\<close>: a property of \<^verbatim>\<open>null\<close>/\<^verbatim>\<open>undefined\<close>, a bad argument type\<close>
  | RangeError string   \<comment> \<open>\<^verbatim>\<open>RangeError\<close>: a buffer size or offset out of range\<close>
  | SystemError string  \<comment> \<open>an error the file system hands to a callback (ENOENT, EIO, EBADF, ...)\<close>
  | CannotFindFile int  \<comment> \<open>\<^verbatim>\<open>new Error('Cannot find file #' + id)\<close>\<close>
  | FileDoesNotExist int  \<comment> \<open>\<^verbatim>\<open>new Error('File ' + id + ' does not exist')\<close>\<close>

subsection \<open>Bitwise operators of JavaScript\<close>

text \<open>\<^verbatim>\<open>ToInt32\<close>: the operand of \<^verbatim>\<open><<\<close>, \<^verbatim>\<open>>>\<close> and \<^verbatim>\<open>&\<close> is reduced to a signed
  32-bit integer; \<^verbatim>\<open>NaN\<close> becomes 0.\<close>

definition ToInt32 :: "int \<Rightarrow> int" where
  "ToInt32 n = signed_take_bit 31 n"

definition shiftLeft :: "int option \<Rightarrow> nat \<Rightarrow> int" where
  "shiftLeft x k = (case x of None \<Rightarrow> 0 | Some n \<Rightarrow> ToInt32 (ToInt32 n * 2 ^ k))"

definition shiftRight :: "int \<Rightarrow> nat \<Rightarrow> int" where
  "shiftRight n k = ToInt32 n div 2 ^ k"

definition bitAnd :: "int \<Rightarrow> int \<Rightarrow> int" where
  "bitAnd a b = and (ToInt32 a) (ToInt32 b)"

text \<open>\<^verbatim>\<open>a + b\<close> on numbers: \<^verbatim>\<open>NaN\<close> when an operand is.\<close>

definition plus_number :: "int \<Rightarrow> int option \<Rightarrow> int option" where
  "plus_number a b = (case b of None \<Rightarrow> None | Some n \<Rightarrow> Some (a + n))"

text \<open>\<^verbatim>\<open>str.charCodeAt(i)\<close> is \<^verbatim>\<open>NaN\<close> past the end of the string.\<close>

definition charCodeAt :: "string \<Rightarrow> nat \<Rightarrow> int option" where
  "charCodeAt str i = (if i < length str then Some (of_char (str ! i)) else None)"

text \<open>\<^verbatim>\<open>String.fromCharCode(n)\<close>, called by the program with \<open>n\<close> in \<open>0..255\<close> only.\<close>

definition fromCharCode :: "int \<Rightarrow> char" where
  "fromCharCode n = char_of n"

subsection \<open>The table-type codec\<close>

text \<open>
  \<^verbatim>\<open>
  var parseTableType = function (num) {
    for (var ext = '', i = 0; i < 4; i++) {
      ext = String.fromCharCode(num & 0xFF) + ext
      num >>= 8
    }
    return ext
  }
  var serializeTableType = function (str) {
    for (var num = 0, i = 0; i < 4; i++) {
      num = (num << 8) + str.charCodeAt(i)
    }
    return num
  }
  \<close>
  Both loops run four times; the loop variables are the state of a \<open>fold\<close> over the
  four values of \<open>i\<close>.
\<close>

definition parseTableType :: "int \<Rightarrow> string" where
  "parseTableType num0 =
     fst (fold (\<lambda>i (ext, num). (fromCharCode (bitAnd num 255) # ext, shiftRight num 8))
            [0 ..< 4] ([], num0))"

definition serializeTableType :: "string \<Rightarrow> int option" where
  "serializeTableType str =
     fold (\<lambda>i num. plus_number (shiftLeft num 8) (charCodeAt str i)) [0 ..< 4] (Some 0)"

definition isASCII :: "string \<Rightarrow> bool" where
  "isASCII str = list_all (\<lambda>c. of_char c < (128::int)) str"

text \<open>A 32-bit unsigned value whose four bytes are all ASCII (below 128).\<close>

definition asciiPacked :: "int \<Rightarrow> bool" where
  "asciiPacked v =
     (0 \<le> v \<and> v < 4294967296 \<and> list_all (\<lambda>k. v div 256 ^ k mod 256 < 128) [0 ..< 4])"

subsection \<open>Node's Buffer\<close>

text \<open>Sequencing of computations that may throw: \<open>Inl\<close> is the exception.\<close>

definition andThen :: "error + 'a \<Rightarrow> ('a \<Rightarrow> error + 'b) \<Rightarrow> error + 'b" where
  "andThen r f = (case r of Inl e \<Rightarrow> Inl e | Inr x \<Rightarrow> f x)"

text \<open>\<^verbatim>\<open>Buffer.alloc(size)\<close>: a zero-filled buffer; a negative size throws a
  \<^verbatim>\<open>RangeError\<close>. (Node's upper limit on buffer sizes and memory exhaustion are left
  out.)\<close>

definition Buffer_alloc :: "int \<Rightarrow> error + buffer" where
  "Buffer_alloc n =
     (if n < 0 then Inl (RangeError ''size'') else Inr (replicate (nat n) (CHR 0x00)))"

text \<open>\<^verbatim>\<open>buf.slice(start, end)\<close> for \<open>0 \<le> start\<close>, clamped to the buffer.\<close>

definition slice :: "buffer \<Rightarrow> nat \<Rightarrow> nat \<Rightarrow> buffer" where
  "slice buf start stop = take (stop - start) (drop start buf)"

text \<open>\<^verbatim>\<open>buf.toString('ascii')\<close>: Node documents that decoding as \<^verbatim>\<open>'ascii'\<close> unsets the
  highest bit of each byte before it is read as a character.\<close>

fun ascii7 :: "byte \<Rightarrow> char" where
  "ascii7 (Char b0 b1 b2 b3 b4 b5 b6 b7) = Char b0 b1 b2 b3 b4 b5 b6 False"

definition toString_ascii :: "buffer \<Rightarrow> string" where
  "toString_ascii buf = map ascii7 buf"

text \<open>\<^verbatim>\<open>buf.readUInt32LE(offset)\<close> and \<^verbatim>\<open>buf.readInt32LE(offset)\<close>: a \<^verbatim>\<open>RangeError\<close>
  when the four bytes are not all inside the buffer.\<close>

definition readUInt32LE :: "buffer \<Rightarrow> nat \<Rightarrow> error + int" where
  "readUInt32LE buf offset =
     (if offset + 4 \<le> length buf
      then Inr (of_char (buf ! offset) + 256 * of_char (buf ! (offset + 1))
                + 65536 * of_char (buf ! (offset + 2)) + 16777216 * of_char (buf ! (offset + 3)))
      else Inl (RangeError ''offset''))"

definition readInt32LE :: "buffer \<Rightarrow> nat \<Rightarrow> error + int" where
  "readInt32LE buf offset = andThen (readUInt32LE buf offset) (\<lambda>n. Inr (ToInt32 n))"

text \<open>\<^verbatim>\<open>fs.read(fd, buffer, 0, length, position, callback)\<close> on a file with the given
  contents, \<open>buffer\<close> being the fresh zero-filled buffer of \<open>length\<close> bytes the program
  always passes: the bytes the file has from \<open>position\<close> on are copied in, the rest of
  the buffer stays zero. The callback gets \<open>bytesRead\<close> and the buffer; a read past the end
  of the file is not an error.\<close>

definition fs_read :: "buffer \<Rightarrow> nat \<Rightarrow> nat \<Rightarrow> nat \<times> buffer" where
  "fs_read contents len position =
     (let got = take len (drop position contents)
      in (length got, got @ replicate (len - length got) (CHR 0x00)))"

section \<open>The archive's data\<close>

subsection \<open>Constants\<close>

definition HEADER_SIZE_AOE :: nat where "HEADER_SIZE_AOE = 64"
definition HEADER_SIZE_SWGB :: nat where "HEADER_SIZE_SWGB = 84"
definition TABLE_META_SIZE :: nat where "TABLE_META_SIZE = 12"
definition FILE_META_SIZE :: nat where "FILE_META_SIZE = 12"

definition COPYRIGHT_SWGB :: string where
  "COPYRIGHT_SWGB = ''Copyright (c) 2001 LucasArts Entertainment Company LLC''"

subsection \<open>Entries, tables and the handle\<close>

text \<open>
  A file entry (type \<open>entry\<close>) is the object \<^verbatim>\<open>{id, offset, size, type}\<close>, with \<^verbatim>\<open>buffer\<close> added once
  a payload is attached; \<^verbatim>\<open>null\<close> and a missing property are \<open>None\<close>. A table is
  \<^verbatim>\<open>{ext, offset, numFiles, files}\<close>. The fields carry a prefix where the plain name is
  taken (\<open>id\<close>, \<open>size\<close>) or shared between the two objects (\<open>offset\<close>).
\<close>

record entry =
  file_id :: int
  file_offset :: "int option"
  file_size :: "int option"
  file_type :: string
  file_buffer :: "buffer option"

record table =
  ext :: string
  table_offset :: "int option"
  numFiles :: int
  files :: "entry list"

text \<open>
  The handle \<^verbatim>\<open>DRS\<close>. The header's fields are assigned onto it by \<^verbatim>\<open>read\<close>, so each is
  absent (\<open>None\<close>) before. The dictionaries \<^verbatim>\<open>this.files\<close> and \<^verbatim>\<open>this.newOffset\<close> of the
  constructor are never read or written again and are left out. \<open>epoch\<close> is not a
  property of the JavaScript object: it counts how often \<^verbatim>\<open>drs.tables\<close> has been
  replaced by a new array, so that a reference to a table object held by a closure can
  be told from the table now at the same index (see \<open>tableref\<close> below).
\<close>

record drs =
  tables :: "table list"
  filename :: string
  fd :: "nat option"
  isSWGB :: "bool option"
  copyright :: "buffer option"
  fileVersion :: "buffer option"
  fileType :: "buffer option"
  numTables :: "int option"
  firstFileOffset :: "int option"
  epoch :: nat

definition DRS :: "string \<Rightarrow> drs" where
  "DRS file =
     \<lparr> tables = [], filename = file, fd = None, isSWGB = None, copyright = None,
       fileVersion = None, fileType = None, numTables = None, firstFileOffset = None,
       epoch = 0 \<rparr>"

text \<open>\<^verbatim>\<open>!drs.numTables\<close>: true when the property is missing or 0.\<close>

definition notNumTables :: "drs \<Rightarrow> bool" where
  "notNumTables d = (numTables d = None \<or> numTables d = Some 0)"

subsection \<open>The structs read with awestruct\<close>

text \<open>
  Modelled from the spec: the library \<^verbatim>\<open>awestruct\<close> is a dependency and not part of the
  sources. Section 6 of the spec gives the layout it reads: fields in the order they are
  declared, \<^verbatim>\<open>char(n)\<close> taking \<open>n\<close> bytes, \<^verbatim>\<open>int32\<close> and \<^verbatim>\<open>uint32\<close> little-endian.
  A \<^verbatim>\<open>char(n)\<close> field is kept as the bytes it covers.
\<close>

record header =
  h_copyright :: buffer
  h_fileVersion :: buffer
  h_fileType :: buffer
  h_numTables :: int
  h_firstFileOffset :: int

definition headerStruct :: "bool \<Rightarrow> buffer \<Rightarrow> error + header" where
  "headerStruct isSwgb buf =
     (let w = (if isSwgb then 60 else 40) in
      andThen (readInt32LE buf (w + 16)) (\<lambda>nt.
      andThen (readInt32LE buf (w + 20)) (\<lambda>ffo.
      Inr \<lparr> h_copyright = slice buf 0 w, h_fileVersion = slice buf w (w + 4),
            h_fileType = slice buf (w + 4) (w + 16), h_numTables = nt,
            h_firstFileOffset = ffo \<rparr>)))"

text \<open>\<^verbatim>\<open>assign(drs, header)\<close> copies the header's properties onto the handle.\<close>

definition assign :: "drs \<Rightarrow> header \<Rightarrow> drs" where
  "assign d h =
     d\<lparr> copyright := Some (h_copyright h), fileVersion := Some (h_fileVersion h),
        fileType := Some (h_fileType h), numTables := Some (h_numTables h),
        firstFileOffset := Some (h_firstFileOffset h) \<rparr>"

text \<open>\<^verbatim>\<open>tableStruct\<close> at a byte offset, with the transform that adds \<^verbatim>\<open>tab.files = []\<close>;
  \<^verbatim>\<open>t.array(n, ...)\<close> reads \<open>n\<close> of them one after the other.\<close>

definition tableStruct :: "buffer \<Rightarrow> nat \<Rightarrow> error + table" where
  "tableStruct buf off =
     andThen (readUInt32LE buf off) (\<lambda>e.
     andThen (readInt32LE buf (off + 4)) (\<lambda>ofs.
     andThen (readInt32LE buf (off + 8)) (\<lambda>n.
     Inr \<lparr> ext = parseTableType e, table_offset = Some ofs, numFiles = n, files = [] \<rparr>)))"

fun tables_array :: "nat \<Rightarrow> buffer \<Rightarrow> nat \<Rightarrow> error + table list" where
  "tables_array 0 buf off = Inr []"
| "tables_array (Suc n) buf off =
     andThen (tableStruct buf off) (\<lambda>t.
     andThen (tables_array n buf (off + TABLE_META_SIZE)) (\<lambda>ts. Inr (t # ts)))"

section \<open>The archive index\<close>

text \<open>
  \<^verbatim>\<open>
  DRS.prototype.getFileCount = function () {
    return this.tables.reduce(function (a, t) { return a + t.files.length }, 0)
  }
  DRS.prototype.getFiles = function () {
    return this.tables.reduce(function (arr, table) { return arr.concat(table.files) }, [])
  }
  \<close>
\<close>

definition getFileCount :: "drs \<Rightarrow> nat" where
  "getFileCount d = foldl (\<lambda>a t. a + length (files t)) 0 (tables d)"

definition getFiles :: "drs \<Rightarrow> entry list" where
  "getFiles d = foldl (\<lambda>arr t. arr @ files t) [] (tables d)"

text \<open>
  \<^verbatim>\<open>
  DRS.prototype.getSize = function () {
    var headerSize = this.isSWGB ? HEADER_SIZE_SWGB : HEADER_SIZE_AOE
    return headerSize + TABLE_META_SIZE * this.tables.length +
           FILE_META_SIZE * this.getFileCount() +
           this.getFiles().reduce(function (size, file) { return size + file.size }, 0)
  }
  \<close>
  \<^verbatim>\<open>this.isSWGB\<close> is \<^verbatim>\<open>null\<close> before a read, which selects the base header size; a
  \<^verbatim>\<open>null\<close> size counts as 0 in the sum.
\<close>

definition getSize :: "drs \<Rightarrow> int" where
  "getSize d =
     int (if isSWGB d = Some True then HEADER_SIZE_SWGB else HEADER_SIZE_AOE)
     + int (TABLE_META_SIZE * length (tables d))
     + int (FILE_META_SIZE * getFileCount d)
     + foldl (\<lambda>sz f. sz + (case file_size f of None \<Rightarrow> 0 | Some n \<Rightarrow> n)) 0 (getFiles d)"

text \<open>
  \<^verbatim>\<open>
  DRS.prototype.getFile = function (id) {
    for (var tableI = 0; tableI < this.tables.length; tableI++) {
      var table = this.tables[tableI]
      for (var i = 0; i < table.numFiles; i++) {
        if (table.files[i].id === id) {
          return table.files[i]
        }
      }
    }
    return null
  }
  \<close>
  The inner loop is bounded by the stored count \<^verbatim>\<open>table.numFiles\<close>, not by
  \<^verbatim>\<open>table.files.length\<close>: an index past the end of \<^verbatim>\<open>files\<close> reads \<^verbatim>\<open>undefined\<close>, and
  \<^verbatim>\<open>undefined.id\<close> throws a \<^verbatim>\<open>TypeError\<close>. \<open>Inr None\<close> is the result \<^verbatim>\<open>null\<close>.
\<close>

function getFile_inner :: "table \<Rightarrow> int \<Rightarrow> nat \<Rightarrow> error + entry option" where
  "getFile_inner table fileId i =
     (if int i < numFiles table
      then (if i < length (files table)
            then (if file_id (files table ! i) = fileId then Inr (Some (files table ! i))
                  else getFile_inner table fileId (i + 1))
            else Inl (TypeError ''Cannot read property id of undefined''))
      else Inr None)"
  by pat_completeness auto
termination
  by (relation "measure (\<lambda>(table, fileId, i). nat (numFiles table) - i)") auto

fun getFile_outer :: "table list \<Rightarrow> int \<Rightarrow> error + entry option" where
  "getFile_outer [] fileId = Inr None"
| "getFile_outer (table # rest) fileId =
     (case getFile_inner table fileId 0 of
        Inl e \<Rightarrow> Inl e
      | Inr (Some f) \<Rightarrow> Inr (Some f)
      | Inr None \<Rightarrow> getFile_outer rest fileId)"

definition getFile :: "drs \<Rightarrow> int \<Rightarrow> error + entry option" where
  "getFile d fileId = getFile_outer (tables d) fileId"

text \<open>The invariant of a table in the spec's data model: the stored count is the
  length of the entry list, and every entry carries the table's tag.\<close>

definition tableInvariant :: "table \<Rightarrow> bool" where
  "tableInvariant t =
     (numFiles t = int (length (files t)) \<and> list_all (\<lambda>f. file_type f = ext t) (files t))"

definition countsAgree :: "drs \<Rightarrow> bool" where
  "countsAgree d = list_all (\<lambda>t. numFiles t = int (length (files t))) (tables d)"

text \<open>An entry with a resolved size: \<^verbatim>\<open>size\<close> is not \<^verbatim>\<open>null\<close>, and is the byte length of
  the payload when the entry has one.\<close>

definition sized :: "entry \<Rightarrow> bool" where
  "sized f =
     (file_size f \<noteq> None \<and>
      (case file_buffer f of None \<Rightarrow> True | Some b \<Rightarrow> file_size f = Some (int (length b))))"

definition allSized :: "drs \<Rightarrow> bool" where
  "allSized d = list_all (\<lambda>t. list_all sized (files t)) (tables d)"

section \<open>The type dispatch of \<^verbatim>\<open>readFile\<close>\<close>

text \<open>
  \<^verbatim>\<open>
  if (file.type === 'slp ') {
    fileInst = new SLPFile(buf, file)
  } else if (file.type === 'wav ') {
    fileInst = new WAVFile(buf, file)
  } else if (file.type === 'bina' && buf.slice(0, 8).toString('ascii') === 'JASC-PAL') {
    fileInst = new PaletteFile(buf, file)
  } else {
    fileInst = new DRSFile(buf, file)
  }
  \<close>
  The four classes are external; the model keeps which constructor is called and its
  two arguments.
\<close>

datatype kind = SLPFile | WAVFile | PaletteFile | DRSFile

definition fileInst :: "entry \<Rightarrow> buffer \<Rightarrow> kind" where
  "fileInst f buf =
     (if file_type f = ''slp '' then SLPFile
      else if file_type f = ''wav '' then WAVFile
      else if file_type f = ''bina'' \<and> toString_ascii (slice buf 0 8) = ''JASC-PAL''
      then PaletteFile
      else DRSFile)"

section \<open>The builder\<close>

text \<open>
  \<^verbatim>\<open>
  function getTable (drs, type) {
    var table
    for (var i = 0; i < drs.tables.length; i += 1) {
      table = drs.tables[i]
      if (table.ext === type) {
        break
      }
    }
    if (!table) {
      table = { ext: type, offset: null, numFiles: 0, files: [] }
      drs.tables.push(table)
      drs.numTables = drs.tables.length
    }
    return table
  }
  \<close>
  The variable \<^verbatim>\<open>table\<close> refers to a table object of \<^verbatim>\<open>drs.tables\<close>: the model keeps the
  index of that object, \<open>None\<close> while the variable is \<^verbatim>\<open>undefined\<close>. The loop assigns
  \<^verbatim>\<open>table\<close> before it tests the tag, so after a loop that never breaks the variable
  still refers to the last table.
\<close>

function getTable_loop :: "table list \<Rightarrow> string \<Rightarrow> nat \<Rightarrow> nat option \<Rightarrow> nat option" where
  "getTable_loop ts typ i table =
     (if i < length ts
      then (if ext (ts ! i) = typ then Some i else getTable_loop ts typ (i + 1) (Some i))
      else table)"
  by pat_completeness auto
termination
  by (relation "measure (\<lambda>(ts, typ, i, table). length ts - i)") auto

definition getTable :: "drs \<Rightarrow> string \<Rightarrow> drs \<times> nat" where
  "getTable d typ =
     (case getTable_loop (tables d) typ 0 None of
        Some i \<Rightarrow> (d, i)
      | None \<Rightarrow>
          (let ts = tables d @ [\<lparr> ext = typ, table_offset = None, numFiles = 0, files = [] \<rparr>]
           in (d\<lparr> tables := ts, numTables := Some (int (length ts)) \<rparr>, length ts - 1)))"

text \<open>
  \<^verbatim>\<open>
  function newFile (type, id) {
    return { id: id, offset: null, size: null, type: type }
  }
  function createFileBufferCallback (file, table, cb) {
    return function onbuffer (err, buffer) {
      if (err) return cb(err)
      file.buffer = buffer
      file.size = buffer.byteLength
      table.files.push(file)
      table.numFiles = table.files.length
      cb(null, file)
    }
  }
  \<close>
  \<open>onbuffer\<close> returns the table object after the call and the arguments given to \<^verbatim>\<open>cb\<close>.
\<close>

definition newFile :: "string \<Rightarrow> int \<Rightarrow> entry" where
  "newFile typ fileId =
     \<lparr> file_id = fileId, file_offset = None, file_size = None, file_type = typ,
       file_buffer = None \<rparr>"

definition onbuffer :: "entry \<Rightarrow> table \<Rightarrow> error option \<Rightarrow> buffer \<Rightarrow> table \<times> (error + entry)" where
  "onbuffer f table err buffer =
     (case err of
        Some e \<Rightarrow> (table, Inl e)
      | None \<Rightarrow>
          (let f' = f\<lparr> file_buffer := Some buffer, file_size := Some (int (length buffer)) \<rparr>;
               fs = files table @ [f']
           in (table\<lparr> files := fs, numFiles := int (length fs) \<rparr>, Inr f')))"

section \<open>Reading the directory\<close>

text \<open>
  \<^verbatim>\<open>DRS.prototype.read\<close> issues three reads, one from the callback of the other. Each
  callback is a function of the handle, of the closure variable \<^verbatim>\<open>fileOffset\<close> and of the
  callback's arguments \<^verbatim>\<open>(err, bytesRead, buf)\<close>. Its outcome is one of: \<^verbatim>\<open>cb(err)\<close> was
  called (\<open>Failed\<close>), an exception left the callback (\<open>Thrown\<close>), or it went on
  (\<open>Continue\<close>) with the handle as changed and, for the first two, the length and
  position of the next \<^verbatim>\<open>fs.read\<close>.
\<close>

datatype 'a outcome = Failed error | Thrown error | Continue 'a

text \<open>
  \<^verbatim>\<open>
  fs.read(fd, Buffer.alloc(HEADER_SIZE_SWGB), 0, HEADER_SIZE_SWGB, 0, onHeader)
  function onHeader (err, bytesRead, buf) {
    if (err) return cb(err)
    drs.isSWGB = buf.slice(0, COPYRIGHT_SWGB.length).toString('ascii') === COPYRIGHT_SWGB
    if (!drs.isSWGB) {
      buf = buf.slice(0, HEADER_SIZE_AOE)
    }
    var readHeader = headerStruct(drs.isSWGB)
    assign(drs, readHeader(buf.slice(fileOffset)))
    fileOffset += buf.length
    fs.read(fd, Buffer.alloc(TABLE_META_SIZE * drs.numTables), 0,
            TABLE_META_SIZE * drs.numTables, fileOffset, onTableInfo)
  }
  \<close>
  \<^verbatim>\<open>bytesRead\<close> is not looked at. After \<^verbatim>\<open>assign\<close>, \<^verbatim>\<open>drs.numTables\<close> is the table count of
  the header just read.
\<close>

definition onHeader ::
  "drs \<Rightarrow> nat \<Rightarrow> error option \<Rightarrow> nat \<Rightarrow> buffer \<Rightarrow> (drs \<times> nat \<times> nat) outcome" where
  "onHeader d fileOffset err bytesRead buf0 =
     (case err of
        Some e \<Rightarrow> Failed e
      | None \<Rightarrow>
          (let swgb = (toString_ascii (slice buf0 0 (length COPYRIGHT_SWGB)) = COPYRIGHT_SWGB);
               d1 = d\<lparr> isSWGB := Some swgb \<rparr>;
               buf = (if \<not> swgb then slice buf0 0 HEADER_SIZE_AOE else buf0)
           in case headerStruct swgb (drop fileOffset buf) of
                Inl e \<Rightarrow> Thrown e
              | Inr h \<Rightarrow>
                  (let d2 = assign d1 h;
                       fileOffset' = fileOffset + length buf
                   in case Buffer_alloc (int TABLE_META_SIZE * h_numTables h) of
                        Inl e \<Rightarrow> Thrown e
                      | Inr b \<Rightarrow> Continue (d2, length b, fileOffset'))))"

text \<open>
  \<^verbatim>\<open>
  function onTableInfo (err, bytesRead, buf) {
    if (err) return cb(err)
    var tables = t.array(drs.numTables, tableStruct.transform(...))
    drs.tables = tables(buf)
    var totalFiles = drs.tables.reduce(function (total, table) {
      return total + table.numFiles
    }, 0)
    fileOffset += buf.length
    fs.read(fd, Buffer.alloc(FILE_META_SIZE * totalFiles), 0,
            FILE_META_SIZE * totalFiles, fileOffset, onTables)
  }
  \<close>
  \<^verbatim>\<open>drs.numTables\<close> is read again here; it is set whenever this callback runs, since
  \<open>onHeader\<close> ran before.
\<close>

definition onTableInfo ::
  "drs \<Rightarrow> nat \<Rightarrow> error option \<Rightarrow> nat \<Rightarrow> buffer \<Rightarrow> (drs \<times> nat \<times> nat) outcome" where
  "onTableInfo d fileOffset err bytesRead buf =
     (case err of
        Some e \<Rightarrow> Failed e
      | None \<Rightarrow>
          (case numTables d of
             None \<Rightarrow> Thrown (TypeError ''numTables'')
           | Some n \<Rightarrow>
               (case tables_array (nat n) buf 0 of
                  Inl e \<Rightarrow> Thrown e
                | Inr ts \<Rightarrow>
                    (let d1 = d\<lparr> tables := ts, epoch := epoch d + 1 \<rparr>;
                         totalFiles = foldl (\<lambda>total table. total + numFiles table) 0 (tables d1);
                         fileOffset' = fileOffset + length buf
                     in case Buffer_alloc (int FILE_META_SIZE * totalFiles) of
                          Inl e \<Rightarrow> Thrown e
                        | Inr b \<Rightarrow> Continue (d1, length b, fileOffset')))))"

text \<open>
  \<^verbatim>\<open>
  function onTables (err, bytesRead, buf) {
    if (err) return cb(err)
    var offset = 0
    drs.tables.forEach(function (table) {
      var file
      for (var i = 0, l = table.numFiles; i < l; i++) {
        file = {}
        file.id = buf.readInt32LE(offset)
        offset += 4
        file.offset = buf.readInt32LE(offset)
        offset += 4
        file.size = buf.readInt32LE(offset)
        offset += 4
        file.type = table.ext
        table.files.push(file)
      }
    })
    fileOffset += buf.length
    cb()
  }
  \<close>
  The inner loop runs \<open>nat (numFiles table)\<close> times (not at all for a count below 1) and
  returns the entries it made with the offset it reached.
\<close>

fun onTables_files :: "buffer \<Rightarrow> nat \<Rightarrow> string \<Rightarrow> nat \<Rightarrow> error + (entry list \<times> nat)" where
  "onTables_files buf offset typ 0 = Inr ([], offset)"
| "onTables_files buf offset typ (Suc l) =
     andThen (readInt32LE buf offset) (\<lambda>i.
     andThen (readInt32LE buf (offset + 4)) (\<lambda>ofs.
     andThen (readInt32LE buf (offset + 8)) (\<lambda>sz.
     andThen (onTables_files buf (offset + 12) typ l) (\<lambda>(fs, offset').
     Inr (\<lparr> file_id = i, file_offset = Some ofs, file_size = Some sz, file_type = typ,
             file_buffer = None \<rparr> # fs, offset')))))"

fun onTables_forEach :: "buffer \<Rightarrow> nat \<Rightarrow> table list \<Rightarrow> error + table list" where
  "onTables_forEach buf offset [] = Inr []"
| "onTables_forEach buf offset (table # rest) =
     andThen (onTables_files buf offset (ext table) (nat (numFiles table))) (\<lambda>(fs, offset').
     andThen (onTables_forEach buf offset' rest) (\<lambda>rest'.
     Inr (table\<lparr> files := files table @ fs \<rparr> # rest')))"

definition onTables :: "drs \<Rightarrow> error option \<Rightarrow> nat \<Rightarrow> buffer \<Rightarrow> drs outcome" where
  "onTables d err bytesRead buf =
     (case err of
        Some e \<Rightarrow> Failed e
      | None \<Rightarrow>
          (case onTables_forEach buf 0 (tables d) of
             Inl e \<Rightarrow> Thrown e
           | Inr ts \<Rightarrow> Continue (d\<lparr> tables := ts \<rparr>)))"

text \<open>
  The whole of \<^verbatim>\<open>read\<close> on a descriptor that is open on a file with the given contents
  and whose reads do not fail: the three stages, each fed by \<open>fs_read\<close>. \<open>Inl\<close> is an
  exception thrown by a stage.
\<close>

definition readDirectory :: "buffer \<Rightarrow> drs \<Rightarrow> error + drs" where
  "readDirectory contents d =
     (let (n0, b0) = fs_read contents HEADER_SIZE_SWGB 0 in
      case onHeader d 0 None n0 b0 of
        Failed e \<Rightarrow> Inl e
      | Thrown e \<Rightarrow> Inl e
      | Continue (d1, len1, off1) \<Rightarrow>
          (let (n1, b1) = fs_read contents len1 off1 in
           case onTableInfo d1 off1 None n1 b1 of
             Failed e \<Rightarrow> Inl e
           | Thrown e \<Rightarrow> Inl e
           | Continue (d2, len2, off2) \<Rightarrow>
               (let (n2, b2) = fs_read contents len2 off2 in
                case onTables d2 None n2 b2 of
                  Failed e \<Rightarrow> Inl e
                | Thrown e \<Rightarrow> Inl e
                | Continue d3 \<Rightarrow> Inr d3)))"

section \<open>The handle in Node's event loop\<close>

text \<open>
  The methods of the handle return before their work is done: each starts an
  asynchronous operation whose callback runs in a later turn of the event loop. A
  \<open>world\<close> is the handle together with the file it is opened on, the operations in
  flight and what has been handed to the caller so far. One turn of the event loop
  completes one operation in flight (\<open>complete\<close>); the caller's code runs between the
  turns (\<open>call\<close>).

  A closure is kept as data. \<open>callback\<close> is the function handed to \<^verbatim>\<open>read\<close>: the
  caller's own, the one \<^verbatim>\<open>readFile\<close> builds
  (\<^verbatim>\<open>function (e) { if (e) cb(e) else drs.readFile(id, cb) }\<close>), or \<^verbatim>\<open>onread\<close> of the
  stream made by \<^verbatim>\<open>createReadStream\<close>. \<open>opencb\<close> is the function handed to \<^verbatim>\<open>open\<close>: the
  caller's own or the one \<^verbatim>\<open>read\<close> builds
  (\<^verbatim>\<open>function (e) { if (e) cb(e) else drs.read(cb) }\<close>).

  \<open>TableRef ep i\<close> is the table object that was at index \<open>i\<close> of \<^verbatim>\<open>drs.tables\<close> when that
  array was the \<open>ep\<close>-th one: \<^verbatim>\<open>putFile\<close> and \<^verbatim>\<open>createWriteStream\<close> keep the object they
  got from \<^verbatim>\<open>getTable\<close> in a closure. Within one array, tables are only appended and
  updated in place, so the index keeps naming the same object; once \<^verbatim>\<open>onTableInfo\<close> has
  replaced the array, the object is no longer reachable from the handle.
\<close>

datatype callback = UserCallback | ReadFileRetry int | StreamOnread nat int

datatype opencb = UserOpen | ReadOpen callback

datatype tableref = TableRef nat nat

datatype source = FromBuffer buffer | FromDisk "nat option" int int

text \<open>The \<^verbatim>\<open>data\<close> argument of \<^verbatim>\<open>putFile\<close>: a \<^verbatim>\<open>Buffer\<close>, a stream (with the chunks it
  will deliver), or anything else.\<close>

datatype data = IsBuffer buffer | IsStream "buffer list" | NotData

datatype op =
    FsOpen opencb
    \<comment> \<open>\<^verbatim>\<open>fs.open(this.filename, 'r', ...)\<close>\<close>
  | FsReadHeader nat callback
    \<comment> \<open>\<^verbatim>\<open>fs.read(fd, ..., onHeader)\<close>: the descriptor and \<^verbatim>\<open>cb\<close>\<close>
  | FsReadTableInfo nat nat nat callback
    \<comment> \<open>\<^verbatim>\<open>fs.read(fd, ..., onTableInfo)\<close>: descriptor, length, \<^verbatim>\<open>fileOffset\<close>, \<^verbatim>\<open>cb\<close>\<close>
  | FsReadTables nat nat nat callback
    \<comment> \<open>\<^verbatim>\<open>fs.read(fd, ..., onTables)\<close>: descriptor, length, \<^verbatim>\<open>fileOffset\<close>, \<^verbatim>\<open>cb\<close>\<close>
  | FsReadFile nat nat "int option" entry
    \<comment> \<open>the \<^verbatim>\<open>fs.read\<close> of \<^verbatim>\<open>readFile\<close>: descriptor, length, position, \<^verbatim>\<open>file\<close>\<close>
  | SetTimeout entry tableref buffer
    \<comment> \<open>\<^verbatim>\<open>setTimeout(function () { onbuffer(null, data) }, 0)\<close>\<close>
  | Concat entry tableref "buffer list"
    \<comment> \<open>\<^verbatim>\<open>concat(data, onbuffer)\<close>\<close>
  | WriteStream nat entry tableref "buffer list"
    \<comment> \<open>the stream of \<^verbatim>\<open>createWriteStream\<close> until it is ended: its number, \<^verbatim>\<open>file\<close>,
        \<^verbatim>\<open>table\<close> and the chunks pushed to \<^verbatim>\<open>data\<close>\<close>
  | Pump nat source
    \<comment> \<open>\<^verbatim>\<open>pump(source, stream)\<close>\<close>

datatype event = ErrorEvent error | MetaEvent entry | DataEvent buffer | EndEvent | CloseEvent

datatype notice =
    OpenCb "error + nat"                       \<comment> \<open>the caller's callback of \<^verbatim>\<open>open\<close>\<close>
  | ReadCb "error option"                      \<comment> \<open>the caller's callback of \<^verbatim>\<open>read\<close>\<close>
  | ReadFileCb "error + kind \<times> buffer \<times> entry"  \<comment> \<open>the caller's callback of \<^verbatim>\<open>readFile\<close>\<close>
  | PutFileCb "error + entry"                  \<comment> \<open>the caller's callback of \<^verbatim>\<open>putFile\<close>\<close>
  | GetFileResult "error + entry option"       \<comment> \<open>what a call of \<^verbatim>\<open>getFile\<close> returned or threw\<close>
  | GetFilesResult "entry list"                \<comment> \<open>what a call of \<^verbatim>\<open>getFiles\<close> returned\<close>
  | Emit nat event                             \<comment> \<open>\<^verbatim>\<open>stream.emit(...)\<close> on a numbered stream\<close>

record world =
  handle :: drs
  disk :: buffer         \<comment> \<open>the contents of the file \<^verbatim>\<open>drs.filename\<close>\<close>
  cursors :: "nat list"  \<comment> \<open>the file position of each descriptor opened so far\<close>
  pending :: "op list"   \<comment> \<open>the operations in flight\<close>
  notices :: "notice list"
  streams :: nat         \<comment> \<open>the number of streams created so far\<close>

definition newWorld :: "string \<Rightarrow> buffer \<Rightarrow> world" where
  "newWorld file contents =
     \<lparr> handle = DRS file, disk = contents, cursors = [], pending = [], notices = [],
       streams = 0 \<rparr>"

definition notify :: "notice \<Rightarrow> world \<Rightarrow> world" where
  "notify n w = w\<lparr> notices := notices w @ [n] \<rparr>"

definition issue :: "op \<Rightarrow> world \<Rightarrow> world" where
  "issue x w = w\<lparr> pending := pending w @ [x] \<rparr>"

text \<open>\<^verbatim>\<open>stream.emit('error', err)\<close> throws \<open>err\<close> when no listener for \<^verbatim>\<open>'error'\<close> is
  attached to the stream.\<close>

definition emit_error :: "nat \<Rightarrow> error \<Rightarrow> bool \<Rightarrow> world \<Rightarrow> error + world" where
  "emit_error s e listening w =
     (if listening then Inr (notify (Emit s (ErrorEvent e)) w) else Inl e)"

text \<open>
  \<^verbatim>\<open>
  DRS.prototype.open = function (cb) {
    fs.open(this.filename, 'r', function (e, fd) {
      if (e) return cb(e)
      this.fd = fd
      cb(null, fd)
    }.bind(this))
  }
  DRS.prototype.read = function (cb) {
    var drs = this
    var fd = this.fd
    if (this.fd === null) {
      return this.open(function (e) {
        if (e) cb(e)
        else drs.read(cb)
      })
    }
    var fileOffset = 0
    fs.read(fd, Buffer.alloc(HEADER_SIZE_SWGB), 0, HEADER_SIZE_SWGB, 0, onHeader)
    ...
  \<close>
\<close>

definition "open" :: "opencb \<Rightarrow> world \<Rightarrow> world" where
  "open cb w = issue (FsOpen cb) w"

definition read :: "callback \<Rightarrow> world \<Rightarrow> world" where
  "read cb w =
     (case fd (handle w) of
        None \<Rightarrow> open (ReadOpen cb) w
      | Some fdn \<Rightarrow> issue (FsReadHeader fdn cb) w)"

text \<open>
  \<^verbatim>\<open>
  DRS.prototype.readFile = function (id, cb) {
    var drs = this
    if (!this.numTables) {
      return this.read(function (e) {
        if (e) cb(e)
        else drs.readFile(id, cb)
      })
    }
    var file = this.getFile(id)
    if (file == null) return cb(new Error('Cannot find file #' + id))
    fs.read(this.fd, Buffer.alloc(file.size), 0, file.size, file.offset,
            function (e, bytesRead, buf) { ... })
  }
  \<close>
  The arguments of \<^verbatim>\<open>fs.read\<close> are evaluated first (\<^verbatim>\<open>Buffer.alloc\<close> throws on a missing
  or negative size); \<^verbatim>\<open>fs.read\<close> then throws on a descriptor that is \<^verbatim>\<open>null\<close> and on a
  position below \<open>-1\<close>. Nothing looks at \<^verbatim>\<open>file.buffer\<close>. \<open>Inl\<close> is an exception thrown
  by the call.
\<close>

definition readFile :: "int \<Rightarrow> world \<Rightarrow> error + world" where
  "readFile fileId w =
     (if notNumTables (handle w) then Inr (read (ReadFileRetry fileId) w)
      else case getFile (handle w) fileId of
             Inl e \<Rightarrow> Inl e
           | Inr None \<Rightarrow> Inr (notify (ReadFileCb (Inl (CannotFindFile fileId))) w)
           | Inr (Some f) \<Rightarrow>
               (case file_size f of
                  None \<Rightarrow> Inl (TypeError ''size'')
                | Some n \<Rightarrow>
                    andThen (Buffer_alloc n) (\<lambda>b.
                      case fd (handle w) of
                        None \<Rightarrow> Inl (TypeError ''fd'')
                      | Some fdn \<Rightarrow>
                          (if (case file_offset f of None \<Rightarrow> False | Some p \<Rightarrow> p < - 1)
                           then Inl (RangeError ''position'')
                           else Inr (issue (FsReadFile fdn (length b) (file_offset f) f) w)))))"

text \<open>
  The callback of that \<^verbatim>\<open>fs.read\<close>:
  \<^verbatim>\<open>
  function (e, bytesRead, buf) {
    if (e) return cb(e)
    var fileInst
    ... (the type dispatch, see fileInst)
    cb(null, fileInst)
  }
  \<close>
  A position of \<^verbatim>\<open>null\<close> (or \<open>-1\<close>) makes \<^verbatim>\<open>fs.read\<close> read at the descriptor's current
  file position and move that position on by the bytes read.
\<close>

definition onFileRead ::
  "nat \<Rightarrow> nat \<Rightarrow> int option \<Rightarrow> entry \<Rightarrow> error option \<Rightarrow> world \<Rightarrow> world" where
  "onFileRead fdn len position f err w =
     (case err of
        Some e \<Rightarrow> notify (ReadFileCb (Inl e)) w
      | None \<Rightarrow>
          (let atCursor = (case position of None \<Rightarrow> True | Some p \<Rightarrow> p < 0);
               pos = (case position of
                        None \<Rightarrow> cursors w ! fdn
                      | Some p \<Rightarrow> if p < 0 then cursors w ! fdn else nat p);
               (bytesRead, buf) = fs_read (disk w) len pos;
               w1 = (if atCursor then w\<lparr> cursors := (cursors w)[fdn := pos + bytesRead] \<rparr> else w)
           in notify (ReadFileCb (Inr (fileInst f buf, buf, f))) w1))"

text \<open>
  \<^verbatim>\<open>
  DRS.prototype.createReadStream = function (id) {
    var drs = this
    var stream = through()
    if (!drs.numTables) {
      drs.read(onread)
    } else {
      onread()
    }
    return stream

    function onread (err) {
      if (err) {
        stream.emit('error', err)
        return
      }
      var file = drs.getFile(id)
      if (!file) {
        stream.emit('error', new Error('File ' + id + ' does not exist'))
      }
      stream.emit('meta', file)
      if (file.buffer) {
        pump(fromBuffer(file.buffer), stream)
        return
      }
      pump(fs.createReadStream(drs.filename, {
        fd: drs.fd,
        start: file.offset,
        end: file.offset + file.size - 1,
        autoClose: false
      }), stream)
    }
  }
  \<close>
  When no entry is found, \<^verbatim>\<open>onread\<close> does not return after the \<^verbatim>\<open>'error'\<close> event: it
  emits \<^verbatim>\<open>'meta'\<close> with \<^verbatim>\<open>null\<close> and then throws on \<^verbatim>\<open>file.buffer\<close>.
  \<^verbatim>\<open>fs.createReadStream\<close> throws unless \<open>0 \<le> start \<le> end\<close>.
\<close>

definition onread :: "nat \<Rightarrow> int \<Rightarrow> error option \<Rightarrow> bool \<Rightarrow> world \<Rightarrow> error + world" where
  "onread s fileId err listening w =
     (case err of
        Some e \<Rightarrow> emit_error s e listening w
      | None \<Rightarrow>
          (case getFile (handle w) fileId of
             Inl e \<Rightarrow> Inl e
           | Inr None \<Rightarrow>
               andThen (emit_error s (FileDoesNotExist fileId) listening w) (\<lambda>w1.
                 Inl (TypeError ''Cannot read property buffer of null''))
           | Inr (Some f) \<Rightarrow>
               (let w1 = notify (Emit s (MetaEvent f)) w in
                case file_buffer f of
                  Some b \<Rightarrow> Inr (issue (Pump s (FromBuffer b)) w1)
                | None \<Rightarrow>
                    (case (file_offset f, file_size f) of
                       (Some start, Some sz) \<Rightarrow>
                         (if 0 \<le> start \<and> start \<le> start + sz - 1
                          then Inr (issue (Pump s (FromDisk (fd (handle w)) start (start + sz - 1))) w1)
                          else Inl (RangeError ''start''))
                     | _ \<Rightarrow> Inl (TypeError ''start'')))))"

definition createReadStream :: "int \<Rightarrow> world \<Rightarrow> error + world" where
  "createReadStream fileId w =
     (let s = streams w; w1 = w\<lparr> streams := s + 1 \<rparr>
      in if notNumTables (handle w) then Inr (read (StreamOnread s fileId) w1)
         else onread s fileId None False w1)"

text \<open>What \<^verbatim>\<open>pump\<close> delivers on the stream: the bytes of the source and the end, or
  the closing of the stream when the source fails.\<close>

definition pumped :: "nat \<Rightarrow> source \<Rightarrow> error option \<Rightarrow> world \<Rightarrow> world" where
  "pumped s src err w =
     (case err of
        Some e \<Rightarrow> notify (Emit s CloseEvent) w
      | None \<Rightarrow>
          (let bytes = (case src of
                          FromBuffer b \<Rightarrow> b
                        | FromDisk fdo start stop \<Rightarrow> slice (disk w) (nat start) (nat stop + 1))
           in notify (Emit s EndEvent) (notify (Emit s (DataEvent bytes)) w)))"

text \<open>\<^verbatim>\<open>cb(err)\<close> and \<^verbatim>\<open>cb()\<close> for the callback handed to \<^verbatim>\<open>read\<close>.\<close>

fun callback_error :: "callback \<Rightarrow> error \<Rightarrow> bool \<Rightarrow> world \<Rightarrow> error + world" where
  "callback_error UserCallback e listening w = Inr (notify (ReadCb (Some e)) w)"
| "callback_error (ReadFileRetry fileId) e listening w = Inr (notify (ReadFileCb (Inl e)) w)"
| "callback_error (StreamOnread s fileId) e listening w = onread s fileId (Some e) listening w"

fun callback_ok :: "callback \<Rightarrow> bool \<Rightarrow> world \<Rightarrow> error + world" where
  "callback_ok UserCallback listening w = Inr (notify (ReadCb None) w)"
| "callback_ok (ReadFileRetry fileId) listening w = readFile fileId w"
| "callback_ok (StreamOnread s fileId) listening w = onread s fileId None listening w"

subsection \<open>Adding entries\<close>

text \<open>
  \<^verbatim>\<open>
  DRS.prototype.putFile = function (type, id, data, cb) {
    var file = newFile(type, id)
    var table = getTable(this, type)
    var onbuffer = createFileBufferCallback(file, table, cb)
    if (isBuffer(data)) {
      setTimeout(function () {
        onbuffer(null, data)
      }, 0)
    } else if (isStream(data)) {
      concat(data, onbuffer)
    } else {
      throw new TypeError('Expected a Buffer or a Stream, but got \'' + typeof data + '\'')
    }
  }
  \<close>
  The call returns the world as \<^verbatim>\<open>getTable\<close> left it, and the exception if it threw.
\<close>

definition putFile :: "string \<Rightarrow> int \<Rightarrow> data \<Rightarrow> world \<Rightarrow> world \<times> error option" where
  "putFile typ fileId dat w =
     (let f = newFile typ fileId;
          (d, i) = getTable (handle w) typ;
          w1 = w\<lparr> handle := d \<rparr>;
          table = TableRef (epoch d) i
      in case dat of
           IsBuffer b \<Rightarrow> (issue (SetTimeout f table b) w1, None)
         | IsStream chunks \<Rightarrow> (issue (Concat f table chunks) w1, None)
         | NotData \<Rightarrow> (w1, Some (TypeError ''Expected a Buffer or a Stream'')))"

text \<open>
  \<^verbatim>\<open>
  DRS.prototype.createWriteStream = function (type, id) {
    var file = newFile(type, id)
    var table = getTable(this, type)
    var data = []
    var cb = createFileBufferCallback(file, table, onfinish)
    var stream = to(function (chunk, enc, next) {
      data.push(chunk)
      next()
    }, function (next) {
      cb(null, Buffer.concat(data))
      next()
    })
    function onfinish (err, file) {
      if (err) stream.emit('error', err)
      else stream.emit('meta', file)
    }
    return stream
  }
  \<close>
  \<open>stream_write\<close> is \<^verbatim>\<open>stream.write(chunk)\<close> on the stream numbered \<open>s\<close>, while it has not
  ended.
\<close>

definition createWriteStream :: "string \<Rightarrow> int \<Rightarrow> world \<Rightarrow> world" where
  "createWriteStream typ fileId w =
     (let f = newFile typ fileId;
          (d, i) = getTable (handle w) typ;
          s = streams w
      in issue (WriteStream s f (TableRef (epoch d) i) [])
           (w\<lparr> handle := d, streams := s + 1 \<rparr>))"

fun push_chunk :: "nat \<Rightarrow> buffer \<Rightarrow> op \<Rightarrow> op" where
  "push_chunk s chunk (WriteStream s' f table dat) =
     (if s' = s then WriteStream s' f table (dat @ [chunk]) else WriteStream s' f table dat)"
| "push_chunk s chunk x = x"

definition stream_write :: "nat \<Rightarrow> buffer \<Rightarrow> world \<Rightarrow> world" where
  "stream_write s chunk w = w\<lparr> pending := map (push_chunk s chunk) (pending w) \<rparr>"

text \<open>
  \<^verbatim>\<open>onbuffer(err, buffer)\<close> run on the table object the closure holds. When that object is
  still the one at its index of \<^verbatim>\<open>drs.tables\<close>, the handle sees the change. When the
  array has been replaced since, the object is detached: the handle stays as it is and
  only the arguments given to \<^verbatim>\<open>cb\<close> are kept (they do not depend on the table).
\<close>

definition run_onbuffer ::
  "entry \<Rightarrow> tableref \<Rightarrow> error option \<Rightarrow> buffer \<Rightarrow> world \<Rightarrow> world \<times> (error + entry)" where
  "run_onbuffer f table err buffer w =
     (case table of TableRef ep i \<Rightarrow>
        (let d = handle w in
         if ep = epoch d \<and> i < length (tables d)
         then (let (t, res) = onbuffer f (tables d ! i) err buffer
               in (w\<lparr> handle := d\<lparr> tables := (tables d)[i := t] \<rparr> \<rparr>, res))
         else (w, snd (onbuffer f \<lparr> ext = file_type f, table_offset = None, numFiles = 0,
                                    files = [] \<rparr> err buffer))))"

text \<open>\<^verbatim>\<open>onfinish\<close> of \<^verbatim>\<open>createWriteStream\<close>.\<close>

definition onfinish :: "nat \<Rightarrow> error + entry \<Rightarrow> bool \<Rightarrow> world \<Rightarrow> error + world" where
  "onfinish s res listening w =
     (case res of
        Inl e \<Rightarrow> emit_error s e listening w
      | Inr f \<Rightarrow> Inr (notify (Emit s (MetaEvent f)) w))"

subsection \<open>One turn of the event loop\<close>

text \<open>
  \<open>fire x err listening w\<close> runs the callback of the operation \<open>x\<close>. \<open>err\<close> is the error
  the operation ended with, if any: whether a file operation or a stream fails is the
  environment's choice (a timer and the end of a write stream cannot fail, and \<open>err\<close> is
  not looked at for them). \<open>listening\<close> says whether the caller has an \<^verbatim>\<open>'error'\<close>
  listener on the stream concerned. The result \<open>Inl e\<close> is an exception that leaves the
  callback uncaught.
\<close>

fun fire :: "op \<Rightarrow> error option \<Rightarrow> bool \<Rightarrow> world \<Rightarrow> error + world" where
  "fire (FsOpen cb) err listening w =
     (case err of
        Some e \<Rightarrow>
          (case cb of
             UserOpen \<Rightarrow> Inr (notify (OpenCb (Inl e)) w)
           | ReadOpen c \<Rightarrow> callback_error c e listening w)
      | None \<Rightarrow>
          (let fdn = length (cursors w);
               w1 = w\<lparr> cursors := cursors w @ [0], handle := (handle w)\<lparr> fd := Some fdn \<rparr> \<rparr>
           in case cb of
                UserOpen \<Rightarrow> Inr (notify (OpenCb (Inr fdn)) w1)
              | ReadOpen c \<Rightarrow> Inr (read c w1)))"
| "fire (FsReadHeader fdn cb) err listening w =
     (let (bytesRead, buf) = fs_read (disk w) HEADER_SIZE_SWGB 0 in
      case onHeader (handle w) 0 err bytesRead buf of
        Failed e \<Rightarrow> callback_error cb e listening w
      | Thrown e \<Rightarrow> Inl e
      | Continue (d, len, fileOffset) \<Rightarrow>
          Inr (issue (FsReadTableInfo fdn len fileOffset cb) (w\<lparr> handle := d \<rparr>)))"
| "fire (FsReadTableInfo fdn len fileOffset cb) err listening w =
     (let (bytesRead, buf) = fs_read (disk w) len fileOffset in
      case onTableInfo (handle w) fileOffset err bytesRead buf of
        Failed e \<Rightarrow> callback_error cb e listening w
      | Thrown e \<Rightarrow> Inl e
      | Continue (d, len', fileOffset') \<Rightarrow>
          Inr (issue (FsReadTables fdn len' fileOffset' cb) (w\<lparr> handle := d \<rparr>)))"
| "fire (FsReadTables fdn len fileOffset cb) err listening w =
     (let (bytesRead, buf) = fs_read (disk w) len fileOffset in
      case onTables (handle w) err bytesRead buf of
        Failed e \<Rightarrow> callback_error cb e listening w
      | Thrown e \<Rightarrow> Inl e
      | Continue d \<Rightarrow> callback_ok cb listening (w\<lparr> handle := d \<rparr>))"
| "fire (FsReadFile fdn len position f) err listening w =
     Inr (onFileRead fdn len position f err w)"
| "fire (SetTimeout f table b) err listening w =
     (let (w1, res) = run_onbuffer f table None b w in Inr (notify (PutFileCb res) w1))"
| "fire (Concat f table chunks) err listening w =
     (let (w1, res) = run_onbuffer f table err (concat chunks) w
      in Inr (notify (PutFileCb res) w1))"
| "fire (WriteStream s f table dat) err listening w =
     (let (w1, res) = run_onbuffer f table None (concat dat) w in onfinish s res listening w1)"
| "fire (Pump s src) err listening w = Inr (pumped s src err w)"

definition complete :: "nat \<Rightarrow> error option \<Rightarrow> bool \<Rightarrow> world \<Rightarrow> error + world" where
  "complete i err listening w =
     (if i < length (pending w)
      then fire (pending w ! i) err listening
             (w\<lparr> pending := take i (pending w) @ drop (Suc i) (pending w) \<rparr>)
      else Inr w)"

subsection \<open>The caller's code\<close>

text \<open>A call of a method of the handle. The result is the world after the call
  (unchanged where the method threw before changing anything). \<^verbatim>\<open>getFile\<close> and
  \<^verbatim>\<open>getFiles\<close> are synchronous and assign to nothing: the world after the call differs
  only by the record of what the caller got.\<close>

datatype request =
    CallOpen
  | CallRead
  | CallReadFile int
  | CallCreateReadStream int
  | CallPutFile string int data
  | CallCreateWriteStream string int
  | CallWrite nat buffer
  | CallGetFile int
  | CallGetFiles

fun call :: "request \<Rightarrow> world \<Rightarrow> world" where
  "call CallOpen w = open UserOpen w"
| "call CallRead w = read UserCallback w"
| "call (CallReadFile fileId) w = (case readFile fileId w of Inl e \<Rightarrow> w | Inr w1 \<Rightarrow> w1)"
| "call (CallCreateReadStream fileId) w =
     (case createReadStream fileId w of Inl e \<Rightarrow> w | Inr w1 \<Rightarrow> w1)"
| "call (CallPutFile typ fileId dat) w = fst (putFile typ fileId dat w)"
| "call (CallCreateWriteStream typ fileId) w = createWriteStream typ fileId w"
| "call (CallWrite s chunk) w = stream_write s chunk w"
| "call (CallGetFile fileId) w = notify (GetFileResult (getFile (handle w) fileId)) w"
| "call CallGetFiles w = notify (GetFilesResult (getFiles (handle w))) w"

text \<open>The worlds that a handle made by \<^verbatim>\<open>DRS(file)\<close> can be in: after any calls and
  any turns of the event loop, in any order, none of which ended in an uncaught
  exception.\<close>

inductive reachable :: "world \<Rightarrow> bool" where
  start: "reachable (newWorld file contents)"
| called: "reachable w \<Longrightarrow> reachable (call r w)"
| turned: "reachable w \<Longrightarrow> complete i err listening w = Inr w' \<Longrightarrow> reachable w'"

text \<open>A run given as a list of steps, for evaluating a scenario.\<close>

datatype step = Call request | Turn nat "error option" bool

fun run :: "step list \<Rightarrow> world \<Rightarrow> error + world" where
  "run [] w = Inr w"
| "run (Call r # rest) w = run rest (call r w)"
| "run (Turn i err listening # rest) w =
     (case complete i err listening w of Inl e \<Rightarrow> Inl e | Inr w1 \<Rightarrow> run rest w1)"

definition tablesAfter :: "step list \<Rightarrow> world \<Rightarrow> error + table list" where
  "tablesAfter steps w =
     (case run steps w of Inl e \<Rightarrow> Inl e | Inr w' \<Rightarrow> Inr (tables (handle w')))"

definition noticesAfter :: "step list \<Rightarrow> world \<Rightarrow> error + notice list" where
  "noticesAfter steps w =
     (case run steps w of Inl e \<Rightarrow> Inl e | Inr w' \<Rightarrow> Inr (notices w'))"

definition pendingAfter :: "step list \<Rightarrow> world \<Rightarrow> error + op list" where
  "pendingAfter steps w =
     (case run steps w of Inl e \<Rightarrow> Inl e | Inr w' \<Rightarrow> Inr (pending w'))"

text \<open>
  A small archive of the base variant, used in the examples below: a 64-byte header
  declaring one table, the table \<^verbatim>\<open>'bina'\<close> with one entry, the entry (id 9, offset 88,
  size 8), and its eight payload bytes. The tag is stored least significant byte first,
  as \<^verbatim>\<open>uint32\<close> little-endian.
\<close>

definition exampleArchive :: buffer where
  "exampleArchive =
     replicate 40 (CHR ''x'') @ ''1.00'' @ ''tribe'' @ replicate 7 (CHR 0x00)
     @ [CHR 0x01, CHR 0x00, CHR 0x00, CHR 0x00] @ [CHR 0x58, CHR 0x00, CHR 0x00, CHR 0x00]
     @ ''anib'' @ [CHR 0x4C, CHR 0x00, CHR 0x00, CHR 0x00] @ [CHR 0x01, CHR 0x00, CHR 0x00, CHR 0x00]
     @ [CHR 0x09, CHR 0x00, CHR 0x00, CHR 0x00] @ [CHR 0x58, CHR 0x00, CHR 0x00, CHR 0x00]
       @ [CHR 0x08, CHR 0x00, CHR 0x00, CHR 0x00]
     @ ''JASC-PAL''"

text \<open>The directory loads in flight: the operations whose completion is, or leads to,
  the next stage of a \<^verbatim>\<open>read\<close>.\<close>

fun isLoad :: "op \<Rightarrow> bool" where
  "isLoad (FsOpen (ReadOpen cb)) = True"
| "isLoad (FsReadHeader fdn cb) = True"
| "isLoad (FsReadTableInfo fdn len fileOffset cb) = True"
| "isLoad (FsReadTables fdn len fileOffset cb) = True"
| "isLoad x = False"

definition loadsInFlight :: "world \<Rightarrow> nat" where
  "loadsInFlight w = length (filter isLoad (pending w))"

text \<open>
  Two properties of a world, used to state what the operations keep.

  \<open>ownTable d x\<close>: the table object that the builder operation \<open>x\<close> holds in its closure
  is either no longer one of the handle's tables (the array has been replaced since), or
  it is the table at its index and its tag is the type of the entry that \<open>x\<close> is going to
  append. It says nothing of an operation that appends no entry.

  \<open>tagsKept w\<close>: every entry of every table carries the tag of its table, and every
  builder operation in flight holds a table of the type of its entry.
\<close>

fun ownTable :: "drs \<Rightarrow> op \<Rightarrow> bool" where
  "ownTable d (SetTimeout f (TableRef ep i) b) =
     (ep < epoch d \<or> (ep = epoch d \<and> i < length (tables d) \<and> ext (tables d ! i) = file_type f))"
| "ownTable d (Concat f (TableRef ep i) chunks) =
     (ep < epoch d \<or> (ep = epoch d \<and> i < length (tables d) \<and> ext (tables d ! i) = file_type f))"
| "ownTable d (WriteStream s f (TableRef ep i) dat) =
     (ep < epoch d \<or> (ep = epoch d \<and> i < length (tables d) \<and> ext (tables d ! i) = file_type f))"
| "ownTable d x = True"

definition tagsKept :: "world \<Rightarrow> bool" where
  "tagsKept w =
     (list_all (\<lambda>t. list_all (\<lambda>f. file_type f = ext t) (files t)) (tables (handle w))
      \<and> list_all (ownTable (handle w)) (pending w))"

text \<open>The stages of a directory read that write \<^verbatim>\<open>drs.tables\<close>: \<open>onTableInfo\<close>, which
  replaces the array, and \<open>onTables\<close>, which fills it.\<close>

fun isTableStage :: "op \<Rightarrow> bool" where
  "isTableStage (FsReadTableInfo fdn len fileOffset cb) = True"
| "isTableStage (FsReadTables fdn len fileOffset cb) = True"
| "isTableStage x = False"

section \<open>Proofs: the table-type codec\<close>

lemma upt4: "[0..<4] = [0,1,2,3]" by (simp add: upt_rec)

lemma ToInt32_id: "- 2147483648 \<le> n \<Longrightarrow> n < 2147483648 \<Longrightarrow> ToInt32 n = n"
  unfolding ToInt32_def by (rule signed_take_bit_int_eq_self) simp_all

lemma ToInt32_range: "- 2147483648 \<le> ToInt32 n" "ToInt32 n < 2147483648"
  unfolding ToInt32_def
  using signed_take_bit_int_greater_eq_minus_exp [of 31 n] signed_take_bit_int_less_exp [of 31 n]
  by simp_all

lemma of_char_int_bounds: "0 \<le> (of_char c :: int)" "(of_char c :: int) < 256"
proof -
  have "0 \<le> (of_char c :: int) mod 256" by (rule pos_mod_sign) simp
  then show "0 \<le> (of_char c :: int)" by (simp only: of_char_mod_256)
  have "(of_char c :: int) mod 256 < 256" by (rule pos_mod_bound) simp
  then show "(of_char c :: int) < 256" by (simp only: of_char_mod_256)
qed

lemma shiftLeft8: "0 \<le> x \<Longrightarrow> x < 8388608 \<Longrightarrow> shiftLeft (Some x) 8 = x * 256"
  by (simp add: shiftLeft_def ToInt32_id)

lemma ser4:
  assumes "of_char a < (128::int)"
  shows "serializeTableType [a,b,c,d] = Some (((of_char a * 256 + of_char b) * 256 + of_char c) * 256 + of_char d)"
proof -
  define x1 :: int where "x1 = of_char a"
  define x2 :: int where "x2 = x1 * 256 + of_char b"
  define x3 :: int where "x3 = x2 * 256 + of_char c"
  note bs = of_char_int_bounds [of a] of_char_int_bounds [of b] of_char_int_bounds [of c] of_char_int_bounds [of d]
  have r1: "0 \<le> x1" "x1 < 128" using bs assms by (simp_all add: x1_def)
  have r2: "0 \<le> x2" "x2 < 32768" using bs r1 by (simp_all add: x2_def)
  have r3: "0 \<le> x3" "x3 < 8388608" using bs r2 by (simp_all add: x3_def)
  have "serializeTableType [a,b,c,d] =
    plus_number (shiftLeft (plus_number (shiftLeft (plus_number (shiftLeft (plus_number (shiftLeft (Some 0) 8)
      (Some (of_char a))) 8) (Some (of_char b))) 8) (Some (of_char c))) 8) (Some (of_char d))"
    by (simp add: serializeTableType_def upt4 charCodeAt_def)
  also have "shiftLeft (Some 0) 8 = 0" by (simp add: shiftLeft8)
  also have "plus_number 0 (Some (of_char a)) = Some x1" by (simp add: plus_number_def x1_def)
  also have "shiftLeft (Some x1) 8 = x1 * 256" using r1 by (simp add: shiftLeft8)
  also have "plus_number (x1 * 256) (Some (of_char b)) = Some x2" by (simp add: plus_number_def x2_def)
  also have "shiftLeft (Some x2) 8 = x2 * 256" using r2 by (simp add: shiftLeft8)
  also have "plus_number (x2 * 256) (Some (of_char c)) = Some x3" by (simp add: plus_number_def x3_def)
  also have "shiftLeft (Some x3) 8 = x3 * 256" using r3 by (simp add: shiftLeft8)
  also have "plus_number (x3 * 256) (Some (of_char d)) = Some (x3 * 256 + of_char d)" by (simp add: plus_number_def)
  finally show ?thesis by (simp only: x1_def x2_def x3_def)
qed

lemma ToInt32_byte: "k \<le> 24 \<Longrightarrow> take_bit 8 (drop_bit k (ToInt32 n)) = take_bit 8 (drop_bit k n)"
  unfolding ToInt32_def
proof (rule bit_eqI)
  fix i
  assume "k \<le> 24"
  show "bit (take_bit 8 (drop_bit k (signed_take_bit 31 n))) i = bit (take_bit 8 (drop_bit k n)) i"
  proof (cases "i < 8")
    case True
    with \<open>k \<le> 24\<close> have "k + i \<le> 31" by simp
    then have "min 31 (k + i) = k + i" by simp
    with True show ?thesis by (simp add: bit_simps)
  next
    case False
    then show ?thesis by (simp add: bit_simps)
  qed
qed

lemma bitAnd_255: "bitAnd n 255 = ToInt32 n mod 256"
proof -
  have "and (ToInt32 n) 255 = take_bit 8 (ToInt32 n)"
    by (simp add: take_bit_eq_mask mask_eq_exp_minus_1)
  moreover have "ToInt32 255 = 255" by (simp add: ToInt32_id)
  ultimately show ?thesis by (simp add: bitAnd_def take_bit_eq_mod)
qed

lemma div256s: "x div 256 div 256 = x div 65536" "x div 256 div 256 div 256 = x div 16777216" for x :: int
  using zdiv_zmult2_eq [of 256 x 256] zdiv_zmult2_eq [of 256 "x div 256" 256] zdiv_zmult2_eq [of 65536 x 256]
  by simp_all

lemma base256_step:
  fixes x d :: int
  assumes "0 \<le> d" "d < 256"
  shows "(x * 256 + d) div 256 = x" "(x * 256 + d) mod 256 = d"
  using assms by simp_all

lemma parse_bytes:
  "parseTableType v = [fromCharCode (v div 16777216 mod 256), fromCharCode (v div 65536 mod 256), fromCharCode (v div 256 mod 256), fromCharCode (v mod 256)]"
proof -
  define s where "s = ToInt32 v"
  have r: "- 2147483648 \<le> s" "s < 2147483648" using ToInt32_range [of v] by (simp_all add: s_def)
  have s1: "ToInt32 (s div 256) = s div 256" using r by (intro ToInt32_id) linarith+
  have s2: "ToInt32 (s div 256 div 256) = s div 256 div 256" using r by (intro ToInt32_id) linarith+
  have s3: "ToInt32 (s div 256 div 256 div 256) = s div 256 div 256 div 256" using r by (intro ToInt32_id) linarith+
  note d2 = div256s(1) and d3 = div256s(2)
  have b0: "s mod 256 = v mod 256" using ToInt32_byte [of 0 v] by (simp add: s_def take_bit_eq_mod)
  have b1: "s div 256 mod 256 = v div 256 mod 256" using ToInt32_byte [of 8 v] by (simp add: s_def take_bit_eq_mod drop_bit_eq_div)
  have b2: "s div 256 div 256 mod 256 = v div 65536 mod 256" using ToInt32_byte [of 16 v] by (simp add: s_def take_bit_eq_mod drop_bit_eq_div d2)
  have b3: "s div 256 div 256 div 256 mod 256 = v div 16777216 mod 256" using ToInt32_byte [of 24 v] by (simp add: s_def take_bit_eq_mod drop_bit_eq_div d3)
  show ?thesis
    by (simp add: parseTableType_def upt4 bitAnd_255 shiftRight_def s_def [symmetric] s1 s2 s3 b0 b1 b2 b3)
qed

lemma fromCharCode_of_char: "fromCharCode (of_char c) = c"
  by (simp add: fromCharCode_def)

lemma of_char_fromCharCode: "0 \<le> n \<Longrightarrow> n < 256 \<Longrightarrow> (of_char (fromCharCode n) :: int) = n"
  by (simp add: fromCharCode_def)

lemma parse_serialize:
  assumes "length s = 4" "isASCII s"
  shows "\<exists>v. serializeTableType s = Some v \<and> 0 \<le> v \<and> v < 4294967296 \<and> parseTableType v = s
     \<and> v = of_char (s ! 0) * 16777216 + of_char (s ! 1) * 65536 + of_char (s ! 2) * 256 + of_char (s ! 3)"
proof -
  from assms(1) obtain a b c d where s: "s = [a, b, c, d]"
    by (auto simp add: length_Suc_conv eval_nat_numeral)
  define x2 :: int where "x2 = of_char a * 256 + of_char b"
  define x3 :: int where "x3 = x2 * 256 + of_char c"
  define v :: int where "v = x3 * 256 + of_char d"
  note bs = of_char_int_bounds [of a] of_char_int_bounds [of b] of_char_int_bounds [of c] of_char_int_bounds [of d]
  from assms(2) have a: "of_char a < (128::int)"
    by (simp add: isASCII_def s)
  have ser: "serializeTableType s = Some v" unfolding s v_def x3_def x2_def by (rule ser4 [OF a])
  have v0: "v mod 256 = of_char d" and v1: "v div 256 = x3"
    unfolding v_def using bs by (simp_all only: base256_step)
  have v2: "x3 mod 256 = of_char c" and v3: "x3 div 256 = x2"
    unfolding x3_def using bs by (simp_all only: base256_step)
  have v4: "x2 mod 256 = of_char b" and v5: "x2 div 256 = of_char a"
    unfolding x2_def using bs by (simp_all only: base256_step)
  have "v div 256 mod 256 = of_char c" by (simp only: v1 v2)
  moreover have "v div 65536 mod 256 = of_char b"
    by (simp only: div256s(1) [symmetric] v1 v3 v4)
  moreover have "v div 16777216 mod 256 = of_char a"
    by (simp only: div256s(2) [symmetric] v1 v3 v5 of_char_mod_256)
  ultimately have "parseTableType v = s"
    using v0 by (simp add: parse_bytes s fromCharCode_of_char)
  moreover have r2: "0 \<le> x2" "x2 < 32768" using bs a by (simp_all add: x2_def)
  then have r3: "0 \<le> x3" "x3 < 8388608" using bs by (simp_all add: x3_def)
  then have "0 \<le> v" "v < 4294967296" using bs by (simp_all add: v_def)
  moreover have "v = of_char (s ! 0) * 16777216 + of_char (s ! 1) * 65536 + of_char (s ! 2) * 256 + of_char (s ! 3)"
    by (simp add: s v_def x3_def x2_def)
  ultimately show ?thesis using ser by blast
qed

lemma serialize_parse:
  assumes "asciiPacked v"
  shows "serializeTableType (parseTableType v) = Some v"
proof -
  define b3 b2 b1 b0 where "b3 = v div 16777216 mod 256" and "b2 = v div 65536 mod 256"
    and "b1 = v div 256 mod 256" and "b0 = v mod 256"
  from assms have v: "0 \<le> v" "v < 4294967296" and b: "b0 < 128" "b1 < 128" "b2 < 128" "b3 < 128"
    by (simp_all add: asciiPacked_def upt4 b3_def b2_def b1_def b0_def)
  have nn: "0 \<le> b0" "0 \<le> b1" "0 \<le> b2" "0 \<le> b3"
    by (simp_all add: b3_def b2_def b1_def b0_def)
  have e: "of_char (fromCharCode b0) = b0" "of_char (fromCharCode b1) = b1"
    "of_char (fromCharCode b2) = b2" "of_char (fromCharCode b3) = b3"
    using b nn by (simp_all add: of_char_fromCharCode)
  have "parseTableType v = [fromCharCode b3, fromCharCode b2, fromCharCode b1, fromCharCode b0]"
    by (simp only: parse_bytes b3_def b2_def b1_def b0_def)
  moreover have "serializeTableType [fromCharCode b3, fromCharCode b2, fromCharCode b1, fromCharCode b0]
      = Some (((of_char (fromCharCode b3) * 256 + of_char (fromCharCode b2)) * 256 + of_char (fromCharCode b1)) * 256
          + of_char (fromCharCode b0))"
    by (rule ser4) (simp only: e b)
  moreover have "((b3 * 256 + b2) * 256 + b1) * 256 + b0 = v"
  proof -
    have "0 \<le> v div 16777216" "v div 16777216 < 256" using v by simp_all
    then have "b3 = v div 16777216" by (simp add: b3_def)
    then have "b3 * 256 + b2 = v div 65536"
      using div_mult_mod_eq [of "v div 65536" 256] by (simp only: div256s [symmetric] b2_def)
    moreover have "v div 65536 * 256 + b1 = v div 256"
      using div_mult_mod_eq [of "v div 256" 256] by (simp only: div256s [symmetric] b1_def)
    moreover have "v div 256 * 256 + b0 = v"
      unfolding b0_def by (rule div_mult_mod_eq)
    ultimately show ?thesis by (simp only:)
  qed
  ultimately show ?thesis by (simp only: e)
qed

text \<open>
  C8. The table-tag codec functions are mutual inverses. For every string \<open>s\<close> of four
  ASCII characters, \<open>serializeTableType s\<close> is the number that packs the four character
  codes most significant byte first, and \<open>parseTableType\<close> of that number is \<open>s\<close> again.
  For every 32-bit value \<open>v\<close> whose four bytes are ASCII, serializing the string parsed
  from \<open>v\<close> gives \<open>v\<close> back.
\<close>

theorem tableType_codec_inverse:
  "(length s = 4 \<and> isASCII s \<longrightarrow>
      (\<exists>v. serializeTableType s = Some v \<and>
           v = of_char (s ! 0) * 16777216 + of_char (s ! 1) * 65536 + of_char (s ! 2) * 256
               + of_char (s ! 3) \<and>
           parseTableType v = s))
   \<and> (asciiPacked v' \<longrightarrow> serializeTableType (parseTableType v') = Some v')"
proof (intro conjI impI)
  assume "length s = 4 \<and> isASCII s"
  then have "length s = 4" and "isASCII s" by simp_all
  from parse_serialize [OF this]
  show "\<exists>v. serializeTableType s = Some v \<and>
           v = of_char (s ! 0) * 16777216 + of_char (s ! 1) * 65536 + of_char (s ! 2) * 256
               + of_char (s ! 3) \<and>
           parseTableType v = s"
    by blast
next
  assume "asciiPacked v'"
  then show "serializeTableType (parseTableType v') = Some v'" by (rule serialize_parse)
qed

theorem tableType_codec_inverse_witness:
  "length ''slp '' = 4 \<and> isASCII ''slp '' \<and> asciiPacked 1936486432
   \<and> (\<exists>v. serializeTableType ''slp '' = Some v \<and>
           v = of_char (''slp '' ! 0) * 16777216 + of_char (''slp '' ! 1) * 65536
               + of_char (''slp '' ! 2) * 256 + of_char (''slp '' ! 3) \<and>
           parseTableType v = ''slp '')
   \<and> serializeTableType (parseTableType 1936486432) = Some 1936486432"
proof -
  have h1: "length ''slp '' = 4 \<and> isASCII ''slp ''" by (simp add: isASCII_def)
  have h2: "asciiPacked 1936486432" by (simp add: asciiPacked_def upt4)
  from tableType_codec_inverse [of "''slp ''" 1936486432] h1 h2 show ?thesis by blast
qed

section \<open>Proofs: lookup\<close>

declare getFile_inner.simps [simp del]

lemma find_append_entries:
  "find P (xs @ ys) = (case find P xs of None \<Rightarrow> find P ys | Some x \<Rightarrow> Some x)"
  by (induction xs) auto

lemma getFile_inner_find:
  "numFiles t = int (length (files t)) \<Longrightarrow>
   getFile_inner t fileId i = Inr (find (\<lambda>f. file_id f = fileId) (drop i (files t)))"
proof (induction t fileId i rule: getFile_inner.induct)
  case (1 table fileId i)
  show ?case
  proof (cases "i < length (files table)")
    case True
    then have d: "drop i (files table) = files table ! i # drop (Suc i) (files table)"
      by (simp add: Cons_nth_drop_Suc)
    from True "1.prems" have lt: "int i < numFiles table" by simp
    show ?thesis
    proof (cases "file_id (files table ! i) = fileId")
      case True
      with lt \<open>i < length (files table)\<close> d show ?thesis
        by (subst getFile_inner.simps) simp
    next
      case False
      with lt \<open>i < length (files table)\<close> "1.IH" "1.prems" d show ?thesis
        by (subst getFile_inner.simps) simp
    qed
  next
    case False
    with "1.prems" have "\<not> int i < numFiles table" by simp
    with False show ?thesis
      by (subst getFile_inner.simps) simp
  qed
qed

lemma getFile_outer_find:
  "list_all (\<lambda>t. numFiles t = int (length (files t))) ts \<Longrightarrow>
   getFile_outer ts fileId = Inr (find (\<lambda>f. file_id f = fileId) (concat (map files ts)))"
proof (induction ts)
  case Nil
  then show ?case by simp
next
  case (Cons t ts)
  then have t: "numFiles t = int (length (files t))" and ts: "list_all (\<lambda>t. numFiles t = int (length (files t))) ts"
    by simp_all
  from getFile_inner_find [OF t, of fileId 0]
  have "getFile_inner t fileId 0 = Inr (find (\<lambda>f. file_id f = fileId) (files t))" by simp
  with Cons.IH [OF ts] show ?case
    by (simp add: find_append_entries split: option.splits)
qed

lemma getFiles_concat: "getFiles d = concat (map files (tables d))"
proof -
  have "foldl (\<lambda>arr t. arr @ files t) acc ts = acc @ concat (map files ts)"
    for acc and ts :: "table list"
    by (induction ts arbitrary: acc) simp_all
  then show ?thesis by (simp add: getFiles_def)
qed

lemma getFile_inner_scan:
  "i \<le> length (files t) \<Longrightarrow>
   getFile_inner t fileId i =
     (case find (\<lambda>f. file_id f = fileId) (drop i (take (nat (numFiles t)) (files t))) of
        Some f \<Rightarrow> Inr (Some f)
      | None \<Rightarrow> if int (length (files t)) < numFiles t
                then Inl (TypeError ''Cannot read property id of undefined'')
                else Inr None)"
proof (induction t fileId i rule: getFile_inner.induct)
  case (1 table fileId i)
  let ?scanned = "take (nat (numFiles table)) (files table)"
  show ?case
  proof (cases "int i < numFiles table")
    case nf: True
    show ?thesis
    proof (cases "i < length (files table)")
      case True
      with nf have "i < length ?scanned" by simp
      from nf True have n: "?scanned ! i = files table ! i" by simp
      from \<open>i < length ?scanned\<close> have "drop i ?scanned = ?scanned ! i # drop (Suc i) ?scanned"
        by (rule Cons_nth_drop_Suc [symmetric])
      then have d: "drop i ?scanned = files table ! i # drop (Suc i) ?scanned"
        by (simp only: n)
      show ?thesis
      proof (cases "file_id (files table ! i) = fileId")
        case m: True
        with nf True d n show ?thesis by (subst getFile_inner.simps) simp
      next
        case False
        from True have "i + 1 \<le> length (files table)" by simp
        from "1.IH" [OF nf True False this] nf True False d n show ?thesis
          by (subst getFile_inner.simps) simp
      qed
    next
      case False
      with "1.prems" have e: "i = length (files table)" by simp
      then have "drop i ?scanned = []" by simp
      with nf False e show ?thesis by (subst getFile_inner.simps) simp
    qed
  next
    case False
    then have "drop i ?scanned = []" by simp
    moreover from False "1.prems" have "\<not> int (length (files table)) < numFiles table" by simp
    ultimately show ?thesis using False by (subst getFile_inner.simps) simp
  qed
qed

lemma getFile_outer_scan:
  "getFile_outer ts fileId =
     (case find (\<lambda>t. find (\<lambda>f. file_id f = fileId) (take (nat (numFiles t)) (files t)) \<noteq> None
                      \<or> int (length (files t)) < numFiles t) ts of
        None \<Rightarrow> Inr None
      | Some t \<Rightarrow>
          (case find (\<lambda>f. file_id f = fileId) (take (nat (numFiles t)) (files t)) of
             Some f \<Rightarrow> Inr (Some f)
           | None \<Rightarrow> Inl (TypeError ''Cannot read property id of undefined'')))"
proof (induction ts)
  case Nil
  show ?case by simp
next
  case (Cons t ts)
  from getFile_inner_scan [of 0 t fileId]
  have i: "getFile_inner t fileId 0 =
     (case find (\<lambda>f. file_id f = fileId) (take (nat (numFiles t)) (files t)) of
        Some f \<Rightarrow> Inr (Some f)
      | None \<Rightarrow> if int (length (files t)) < numFiles t
                then Inl (TypeError ''Cannot read property id of undefined'')
                else Inr None)" by simp
  show ?case
  proof (cases "find (\<lambda>f. file_id f = fileId) (take (nat (numFiles t)) (files t))")
    case None
    then show ?thesis
      by (cases "int (length (files t)) < numFiles t") (simp_all only: getFile_outer.simps i Cons.IH find.simps option.case sum.case simp_thms if_True if_False)
  next
    case (Some f)
    then show ?thesis by (simp only: getFile_outer.simps i find.simps option.case sum.case simp_thms if_True option.distinct)
  qed
qed

text \<open>
  C7 (as amended). \<^verbatim>\<open>getFile(id)\<close> takes the tables in table order and looks, in each
  table, at the first \<^verbatim>\<open>numFiles\<close> entries in entry order: the inner loop is bounded by the
  stored count, not by the length of \<^verbatim>\<open>files\<close>.
  \<^item> In every state, the result is decided by the first table that either has an entry
    with the id among its first \<^verbatim>\<open>numFiles\<close> entries or has a stored count above the number
    of its entries. With no such table the result is \<^verbatim>\<open>null\<close>. In that table, the first
    entry with the id among the first \<^verbatim>\<open>numFiles\<close> entries is returned if there is one;
    otherwise the loop runs past the end of \<^verbatim>\<open>files\<close> and a \<^verbatim>\<open>TypeError\<close> is thrown.
  \<^item> In every state in which each table's \<^verbatim>\<open>numFiles\<close> is the length of its \<^verbatim>\<open>files\<close>, the
    result is the first entry with the id among all entries, table by table and entry by
    entry (the list \<^verbatim>\<open>getFiles()\<close> returns), and \<^verbatim>\<open>null\<close> when no entry has the id.
  \<^item> A call of \<^verbatim>\<open>getFile\<close> leaves the handle and the operations in flight as they are, so
    a lookup gives the same result whatever lookups were made before it.
\<close>

theorem getFile_scan:
  "getFile d fileId =
     (case find (\<lambda>t. find (\<lambda>f. file_id f = fileId) (take (nat (numFiles t)) (files t)) \<noteq> None
                      \<or> int (length (files t)) < numFiles t) (tables d) of
        None \<Rightarrow> Inr None
      | Some t \<Rightarrow>
          (case find (\<lambda>f. file_id f = fileId) (take (nat (numFiles t)) (files t)) of
             Some f \<Rightarrow> Inr (Some f)
           | None \<Rightarrow> Inl (TypeError ''Cannot read property id of undefined'')))
   \<and> getFiles d = concat (map files (tables d))
   \<and> (countsAgree d \<longrightarrow> getFile d fileId = Inr (find (\<lambda>f. file_id f = fileId) (getFiles d)))
   \<and> (countsAgree d \<and> fileId \<notin> file_id ` set (getFiles d) \<longrightarrow> getFile d fileId = Inr None)
   \<and> handle (call (CallGetFile earlier) w) = handle w
   \<and> pending (call (CallGetFile earlier) w) = pending w
   \<and> getFile (handle (call (CallGetFile earlier) w)) fileId = getFile (handle w) fileId"
proof (intro conjI impI)
  show "getFile d fileId =
     (case find (\<lambda>t. find (\<lambda>f. file_id f = fileId) (take (nat (numFiles t)) (files t)) \<noteq> None
                      \<or> int (length (files t)) < numFiles t) (tables d) of
        None \<Rightarrow> Inr None
      | Some t \<Rightarrow>
          (case find (\<lambda>f. file_id f = fileId) (take (nat (numFiles t)) (files t)) of
             Some f \<Rightarrow> Inr (Some f)
           | None \<Rightarrow> Inl (TypeError ''Cannot read property id of undefined'')))"
    unfolding getFile_def by (rule getFile_outer_scan)
next
  show "getFiles d = concat (map files (tables d))" by (rule getFiles_concat)
next
  assume "countsAgree d"
  then show "getFile d fileId = Inr (find (\<lambda>f. file_id f = fileId) (getFiles d))"
    unfolding countsAgree_def getFile_def getFiles_concat by (rule getFile_outer_find)
next
  assume a: "countsAgree d \<and> fileId \<notin> file_id ` set (getFiles d)"
  then have "getFile d fileId = Inr (find (\<lambda>f. file_id f = fileId) (getFiles d))"
    unfolding countsAgree_def getFile_def getFiles_concat by (auto intro: getFile_outer_find)
  moreover from a have "find (\<lambda>f. file_id f = fileId) (getFiles d) = None"
    by (auto simp add: find_None_iff)
  ultimately show "getFile d fileId = Inr None" by simp
next
  show "handle (call (CallGetFile earlier) w) = handle w" by (simp add: notify_def)
  show "pending (call (CallGetFile earlier) w) = pending w" by (simp add: notify_def)
  show "getFile (handle (call (CallGetFile earlier) w)) fileId = getFile (handle w) fileId"
    by (simp add: notify_def)
qed

text \<open>A witness: two tables whose counts agree with their entries; the id 8 is in both
  and the entry of the first table is returned; the id 5 is in neither.\<close>

theorem getFile_scan_witness:
  "countsAgree
     ((DRS ''f'')\<lparr> tables :=
        [\<lparr> ext = ''slp '', table_offset = None, numFiles = 2,
            files = [newFile ''slp '' 7, newFile ''slp '' 8] \<rparr>,
         \<lparr> ext = ''bina'', table_offset = None, numFiles = 2,
            files = [newFile ''bina'' 9, newFile ''bina'' 8] \<rparr>] \<rparr>)
   \<and> getFile
     ((DRS ''f'')\<lparr> tables :=
        [\<lparr> ext = ''slp '', table_offset = None, numFiles = 2,
            files = [newFile ''slp '' 7, newFile ''slp '' 8] \<rparr>,
         \<lparr> ext = ''bina'', table_offset = None, numFiles = 2,
            files = [newFile ''bina'' 9, newFile ''bina'' 8] \<rparr>] \<rparr>) 8
     = Inr (Some (newFile ''slp '' 8))
   \<and> 5 \<notin> file_id ` set (getFiles
     ((DRS ''f'')\<lparr> tables :=
        [\<lparr> ext = ''slp '', table_offset = None, numFiles = 2,
            files = [newFile ''slp '' 7, newFile ''slp '' 8] \<rparr>,
         \<lparr> ext = ''bina'', table_offset = None, numFiles = 2,
            files = [newFile ''bina'' 9, newFile ''bina'' 8] \<rparr>] \<rparr>))
   \<and> getFile
     ((DRS ''f'')\<lparr> tables :=
        [\<lparr> ext = ''slp '', table_offset = None, numFiles = 2,
            files = [newFile ''slp '' 7, newFile ''slp '' 8] \<rparr>,
         \<lparr> ext = ''bina'', table_offset = None, numFiles = 2,
            files = [newFile ''bina'' 9, newFile ''bina'' 8] \<rparr>] \<rparr>) 5
     = Inr None"
proof -
  define d where "d = (DRS ''f'')\<lparr> tables :=
        [\<lparr> ext = ''slp '', table_offset = None, numFiles = 2,
            files = [newFile ''slp '' 7, newFile ''slp '' 8] \<rparr>,
         \<lparr> ext = ''bina'', table_offset = None, numFiles = 2,
            files = [newFile ''bina'' 9, newFile ''bina'' 8] \<rparr>] \<rparr>"
  have c: "countsAgree d" by (simp add: countsAgree_def d_def)
  have g: "getFiles d = [newFile ''slp '' 7, newFile ''slp '' 8, newFile ''bina'' 9, newFile ''bina'' 8]"
    by (simp add: getFiles_def d_def)
  have n: "5 \<notin> file_id ` set (getFiles d)" by (simp add: g newFile_def)
  from getFile_scan [of d 8] c
  have "getFile d 8 = Inr (find (\<lambda>f. file_id f = 8) (getFiles d))" by blast
  then have 1: "getFile d 8 = Inr (Some (newFile ''slp '' 8))"
    by (simp add: g newFile_def)
  from getFile_scan [of d 5] c n have 2: "getFile d 5 = Inr None" by blast
  from c 1 n 2 show ?thesis unfolding d_def by blast
qed

text \<open>
  The claim as stated fails in states the handle reaches. On the example archive,
  \<^verbatim>\<open>readFile(9)\<close> starts a directory read. Once \<open>onTableInfo\<close> has run, the table \<^verbatim>\<open>'bina'\<close>
  has the stored count 1 and no entry: \<^verbatim>\<open>getFile(7)\<close>, for an id that was never added,
  throws a \<^verbatim>\<open>TypeError\<close>. A \<^verbatim>\<open>putFile('bina', 5, hello)\<close> called and completed at that point
  appends the entry 5 and sets the count to 1; \<open>onTables\<close> then appends the entry 9 and
  leaves the count. From then on \<^verbatim>\<open>getFiles()\<close> lists the entries 5 and 9, and
  \<^verbatim>\<open>getFile(9)\<close> returns \<^verbatim>\<open>null\<close> (so does the lookup inside the pending \<^verbatim>\<open>readFile(9)\<close>,
  which reports that it cannot find the file).
\<close>

theorem getFile_stale_count_counterexample:
  "noticesAfter
     [Call (CallReadFile 9), Turn 0 None False, Turn 0 None False, Turn 0 None False,
      Call (CallGetFile 7),
      Call (CallPutFile ''bina'' 5 (IsBuffer ''hello'')), Turn 1 None False,
      Turn 0 None False, Call (CallGetFile 9), Call CallGetFiles]
     (newWorld ''f'' exampleArchive)
   = Inr [GetFileResult (Inl (TypeError ''Cannot read property id of undefined'')),
          PutFileCb (Inr \<lparr> file_id = 5, file_offset = None, file_size = Some 5,
              file_type = ''bina'', file_buffer = Some ''hello'' \<rparr>),
          ReadFileCb (Inl (CannotFindFile 9)),
          GetFileResult (Inr None),
          GetFilesResult
            [\<lparr> file_id = 5, file_offset = None, file_size = Some 5,
                file_type = ''bina'', file_buffer = Some ''hello'' \<rparr>,
             \<lparr> file_id = 9, file_offset = Some 88, file_size = Some 8,
                file_type = ''bina'', file_buffer = None \<rparr>]]
   \<and> tablesAfter
     [Call (CallReadFile 9), Turn 0 None False, Turn 0 None False, Turn 0 None False,
      Call (CallGetFile 7),
      Call (CallPutFile ''bina'' 5 (IsBuffer ''hello'')), Turn 1 None False,
      Turn 0 None False, Call (CallGetFile 9), Call CallGetFiles]
     (newWorld ''f'' exampleArchive)
   = Inr [\<lparr> ext = ''bina'', table_offset = Some 76, numFiles = 1,
             files = [\<lparr> file_id = 5, file_offset = None, file_size = Some 5,
                        file_type = ''bina'', file_buffer = Some ''hello'' \<rparr>,
                      \<lparr> file_id = 9, file_offset = Some 88, file_size = Some 8,
                        file_type = ''bina'', file_buffer = None \<rparr>] \<rparr>]"
  by code_simp

section \<open>Proofs: the header\<close>

lemma readInt32LE_inside:
  "offset + 4 \<le> length buf \<Longrightarrow> \<exists>n. readInt32LE buf offset = Inr n"
  by (simp add: readInt32LE_def readUInt32LE_def andThen_def)

lemma readInt32LE_take:
  "offset + 4 \<le> k \<Longrightarrow> k \<le> length buf \<Longrightarrow> readInt32LE (take k buf) offset = readInt32LE buf offset"
  by (simp add: readInt32LE_def readUInt32LE_def andThen_def)

lemma headerStruct_fields:
  assumes "readInt32LE buf (w + 16) = Inr nt" "readInt32LE buf (w + 20) = Inr ffo"
    and "w = (if isSwgb then 60 else 40)"
  shows "headerStruct isSwgb buf =
     Inr \<lparr> h_copyright = slice buf 0 w, h_fileVersion = slice buf w (w + 4),
           h_fileType = slice buf (w + 4) (w + 16), h_numTables = nt, h_firstFileOffset = ffo \<rparr>"
  using assms by (simp add: headerStruct_def andThen_def Let_def)

lemma slice_take: "stop \<le> k \<Longrightarrow> slice (take k buf) start stop = slice buf start stop"
proof -
  assume "stop \<le> k"
  then have "min (stop - start) (k - start) = stop - start" by simp
  then show ?thesis by (simp add: slice_def drop_take)
qed

lemma onHeader_layout:
  assumes len: "length buf0 = 84"
  defines "swgb \<equiv> (toString_ascii (slice buf0 0 54) = COPYRIGHT_SWGB)"
  defines "w \<equiv> (if swgb then 60 else 40 :: nat)"
  shows "\<exists>nt ffo. readInt32LE buf0 (w + 16) = Inr nt \<and> readInt32LE buf0 (w + 20) = Inr ffo \<and>
     onHeader d 0 None n buf0 =
       (if nt < 0 then Thrown (RangeError ''size'')
        else Continue (d\<lparr> isSWGB := Some swgb, copyright := Some (slice buf0 0 w),
                          fileVersion := Some (slice buf0 w (w + 4)),
                          fileType := Some (slice buf0 (w + 4) (w + 16)),
                          numTables := Some nt, firstFileOffset := Some ffo \<rparr>,
                       nat (12 * nt), if swgb then 84 else 64))"
proof -
  have l54: "length COPYRIGHT_SWGB = 54" by (simp add: COPYRIGHT_SWGB_def)
  have "w + 16 + 4 \<le> length buf0" "w + 20 + 4 \<le> length buf0"
    by (simp_all add: w_def len)
  then obtain nt ffo where nt: "readInt32LE buf0 (w + 16) = Inr nt"
    and ffo: "readInt32LE buf0 (w + 20) = Inr ffo"
    using readInt32LE_inside [of "w + 16" buf0] readInt32LE_inside [of "w + 20" buf0] by blast
  show ?thesis
  proof (cases swgb)
    case True
    then have w: "w = 60" by (simp add: w_def)
    from True have p: "toString_ascii (slice buf0 0 54) = COPYRIGHT_SWGB" by (simp add: swgb_def)
    have h: "headerStruct True buf0 =
        Inr \<lparr> h_copyright = slice buf0 0 60, h_fileVersion = slice buf0 60 64,
              h_fileType = slice buf0 64 76, h_numTables = nt, h_firstFileOffset = ffo \<rparr>"
      using headerStruct_fields [of buf0 60 nt ffo True] nt ffo w by simp
    have "onHeader d 0 None n buf0 =
       (if nt < 0 then Thrown (RangeError ''size'')
        else Continue (d\<lparr> isSWGB := Some True, copyright := Some (slice buf0 0 60),
                          fileVersion := Some (slice buf0 60 64),
                          fileType := Some (slice buf0 64 76),
                          numTables := Some nt, firstFileOffset := Some ffo \<rparr>,
                       nat (12 * nt), 84))"
      by (simp add: onHeader_def l54 p h assign_def Buffer_alloc_def TABLE_META_SIZE_def len)
    with True w nt ffo show ?thesis by auto
  next
    case False
    then have w: "w = 40" by (simp add: w_def)
    from False have p: "toString_ascii (slice buf0 0 54) \<noteq> COPYRIGHT_SWGB" by (simp add: swgb_def)
    have t: "slice buf0 0 64 = take 64 buf0" by (simp add: slice_def)
    have nt': "readInt32LE (take 64 buf0) 56 = Inr nt"
      using nt w len by (simp add: readInt32LE_take)
    have ffo': "readInt32LE (take 64 buf0) 60 = Inr ffo"
      using ffo w len by (simp add: readInt32LE_take)
    have h: "headerStruct False (take 64 buf0) =
        Inr \<lparr> h_copyright = slice buf0 0 40, h_fileVersion = slice buf0 40 44,
              h_fileType = slice buf0 44 56, h_numTables = nt, h_firstFileOffset = ffo \<rparr>"
      using headerStruct_fields [of "take 64 buf0" 40 nt ffo False] nt' ffo'
      by (simp add: slice_take)
    have "onHeader d 0 None n buf0 =
       (if nt < 0 then Thrown (RangeError ''size'')
        else Continue (d\<lparr> isSWGB := Some False, copyright := Some (slice buf0 0 40),
                          fileVersion := Some (slice buf0 40 44),
                          fileType := Some (slice buf0 44 56),
                          numTables := Some nt, firstFileOffset := Some ffo \<rparr>,
                       nat (12 * nt), 64))"
      by (simp add: onHeader_def l54 p t h assign_def Buffer_alloc_def TABLE_META_SIZE_def
          HEADER_SIZE_AOE_def len)
    with False w nt ffo show ?thesis by auto
  qed
qed

lemma fs_read_padded:
  "fs_read contents len position =
     (min (length contents - position) len,
      take len (drop position contents @ replicate len (CHR 0x00)))"
proof -
  have "take len (drop position contents) @ replicate (len - length (take len (drop position contents))) (CHR 0x00)
        = take len (drop position contents @ replicate len (CHR 0x00))"
    by (simp add: min_def)
  then show ?thesis by (simp add: fs_read_def Let_def)
qed

text \<open>
  C3 (as amended). The probe region is the first 54 bytes of the 84 bytes read: as many
  bytes as the magic copyright string has characters, not the 60 bytes of the larger
  variant's copyright field. If those 54 bytes, decoded as ASCII, spell the magic string,
  the header is parsed in the larger layout: a 60-byte copyright field, the table count
  at byte 76, the first-file offset at byte 80, and 84 bytes consumed. For any other
  content of those 54 bytes the first 64 bytes are parsed in the base layout: a 40-byte
  copyright field, the table count at byte 56, the first-file offset at byte 60, and 64
  bytes consumed. (A negative table count makes the allocation of the next buffer throw.)
\<close>

theorem onHeader_variant_detection:
  "length buf0 = HEADER_SIZE_SWGB \<longrightarrow>
     length COPYRIGHT_SWGB = 54 \<and>
     (let swgb = (toString_ascii (slice buf0 0 54) = COPYRIGHT_SWGB);
          w = (if swgb then 60 else 40)
      in \<exists>nt ffo.
           readInt32LE buf0 (w + 16) = Inr nt \<and> readInt32LE buf0 (w + 20) = Inr ffo \<and>
           onHeader d 0 None n buf0 =
             (if nt < 0 then Thrown (RangeError ''size'')
              else Continue (d\<lparr> isSWGB := Some swgb, copyright := Some (slice buf0 0 w),
                                fileVersion := Some (slice buf0 w (w + 4)),
                                fileType := Some (slice buf0 (w + 4) (w + 16)),
                                numTables := Some nt, firstFileOffset := Some ffo \<rparr>,
                             nat (12 * nt), if swgb then 84 else 64)))"
proof
  assume "length buf0 = HEADER_SIZE_SWGB"
  then have len: "length buf0 = 84" by (simp add: HEADER_SIZE_SWGB_def)
  have "length COPYRIGHT_SWGB = 54" by (simp add: COPYRIGHT_SWGB_def)
  with onHeader_layout [OF len, of d n]
  show "length COPYRIGHT_SWGB = 54 \<and>
     (let swgb = (toString_ascii (slice buf0 0 54) = COPYRIGHT_SWGB);
          w = (if swgb then 60 else 40)
      in \<exists>nt ffo.
           readInt32LE buf0 (w + 16) = Inr nt \<and> readInt32LE buf0 (w + 20) = Inr ffo \<and>
           onHeader d 0 None n buf0 =
             (if nt < 0 then Thrown (RangeError ''size'')
              else Continue (d\<lparr> isSWGB := Some swgb, copyright := Some (slice buf0 0 w),
                                fileVersion := Some (slice buf0 w (w + 4)),
                                fileType := Some (slice buf0 (w + 4) (w + 16)),
                                numTables := Some nt, firstFileOffset := Some ffo \<rparr>,
                             nat (12 * nt), if swgb then 84 else 64)))"
    by (simp only: Let_def)
qed

text \<open>A witness: a header of the larger variant with two tables, the six bytes after
  the magic string being zero.\<close>

theorem onHeader_variant_detection_witness:
  "length (COPYRIGHT_SWGB @ replicate 6 (CHR 0x00) @ ''1.00'' @ ''swbg'' @ replicate 8 (CHR 0x00)
      @ [CHR 0x02, CHR 0x00, CHR 0x00, CHR 0x00] @ [CHR 0x84, CHR 0x00, CHR 0x00, CHR 0x00])
     = HEADER_SIZE_SWGB
   \<and> onHeader (DRS ''f'') 0 None 84
       (COPYRIGHT_SWGB @ replicate 6 (CHR 0x00) @ ''1.00'' @ ''swbg'' @ replicate 8 (CHR 0x00)
        @ [CHR 0x02, CHR 0x00, CHR 0x00, CHR 0x00] @ [CHR 0x84, CHR 0x00, CHR 0x00, CHR 0x00])
     = Continue ((DRS ''f'')\<lparr> isSWGB := Some True,
          copyright := Some (COPYRIGHT_SWGB @ replicate 6 (CHR 0x00)),
          fileVersion := Some ''1.00'', fileType := Some (''swbg'' @ replicate 8 (CHR 0x00)),
          numTables := Some 2, firstFileOffset := Some 132 \<rparr>, 24, 84)"
proof -
  define b where "b = COPYRIGHT_SWGB @ replicate 6 (CHR 0x00) @ ''1.00'' @ ''swbg''
      @ replicate 8 (CHR 0x00) @ [CHR 0x02, CHR 0x00, CHR 0x00, CHR 0x00]
      @ [CHR 0x84, CHR 0x00, CHR 0x00, CHR 0x00]"
  have len: "length b = HEADER_SIZE_SWGB"
    by (simp add: b_def COPYRIGHT_SWGB_def HEADER_SIZE_SWGB_def)
  have p: "toString_ascii (slice b 0 54) = COPYRIGHT_SWGB"
    by (simp add: b_def COPYRIGHT_SWGB_def slice_def toString_ascii_def)
  have nt: "readInt32LE b 76 = Inr 2" and ffo: "readInt32LE b 80 = Inr 132"
    by (simp_all add: b_def COPYRIGHT_SWGB_def readInt32LE_def readUInt32LE_def andThen_def
        ToInt32_def eval_nat_numeral)
  have s: "slice b 0 60 = COPYRIGHT_SWGB @ replicate 6 (CHR 0x00)" "slice b 60 64 = ''1.00''"
    "slice b 64 76 = ''swbg'' @ replicate 8 (CHR 0x00)"
    by (simp_all add: b_def COPYRIGHT_SWGB_def slice_def eval_nat_numeral)
  from onHeader_variant_detection [of b "DRS ''f''" 84] len
  have "onHeader (DRS ''f'') 0 None 84 b =
     Continue ((DRS ''f'')\<lparr> isSWGB := Some True,
          copyright := Some (COPYRIGHT_SWGB @ replicate 6 (CHR 0x00)),
          fileVersion := Some ''1.00'', fileType := Some (''swbg'' @ replicate 8 (CHR 0x00)),
          numTables := Some 2, firstFileOffset := Some 132 \<rparr>, 24, 84)"
    by (auto simp add: Let_def p nt ffo s)
  with len show ?thesis unfolding b_def by simp
qed

text \<open>
  The claim as stated fails on a header whose 60-byte copyright field is the magic string
  followed by six other characters: the 60-byte region is not the magic string, yet the
  header is parsed in the larger layout.
\<close>

theorem onHeader_probe_counterexample:
  "toString_ascii (slice (COPYRIGHT_SWGB @ ''XXXXXX'' @ replicate 24 (CHR 0x00)) 0 60)
     \<noteq> COPYRIGHT_SWGB
   \<and> onHeader (DRS ''f'') 0 None 84 (COPYRIGHT_SWGB @ ''XXXXXX'' @ replicate 24 (CHR 0x00)) =
     Continue ((DRS ''f'')\<lparr> isSWGB := Some True,
        copyright := Some (COPYRIGHT_SWGB @ ''XXXXXX''),
        fileVersion := Some (replicate 4 (CHR 0x00)),
        fileType := Some (replicate 12 (CHR 0x00)),
        numTables := Some 0, firstFileOffset := Some 0 \<rparr>, 0, 84)"
  by (simp add: onHeader_def COPYRIGHT_SWGB_def slice_def toString_ascii_def headerStruct_def
      readInt32LE_def readUInt32LE_def andThen_def ToInt32_def assign_def Buffer_alloc_def
      TABLE_META_SIZE_def DRS_def eval_nat_numeral)

text \<open>
  C5 (as amended). Header parsing does not fail on an input of fewer than 84 bytes. The
  84-byte buffer handed to \<^verbatim>\<open>fs.read\<close> is zero-filled, \<^verbatim>\<open>bytesRead\<close> is not looked at, and
  the header is parsed from the input padded with zero bytes: for every input, of any
  length, the callback \<open>onHeader\<close> never calls back with an error of its own; it obtains a
  header and goes on to the table directory, unless the table count it parsed is
  negative, in which case the allocation of the next buffer throws a \<^verbatim>\<open>RangeError\<close>. An
  error reported by the read itself is handed to the callback.
\<close>

theorem onHeader_short_input:
  "(let (bytesRead, buf0) = fs_read contents HEADER_SIZE_SWGB 0;
        swgb = (toString_ascii (slice buf0 0 54) = COPYRIGHT_SWGB);
        w = (if swgb then 60 else 40)
    in bytesRead = min (length contents) 84
       \<and> buf0 = take 84 (contents @ replicate 84 (CHR 0x00))
       \<and> (\<exists>nt ffo.
            readInt32LE buf0 (w + 16) = Inr nt \<and> readInt32LE buf0 (w + 20) = Inr ffo \<and>
            onHeader d 0 None bytesRead buf0 =
              (if nt < 0 then Thrown (RangeError ''size'')
               else Continue (d\<lparr> isSWGB := Some swgb, copyright := Some (slice buf0 0 w),
                                 fileVersion := Some (slice buf0 w (w + 4)),
                                 fileType := Some (slice buf0 (w + 4) (w + 16)),
                                 numTables := Some nt, firstFileOffset := Some ffo \<rparr>,
                              nat (12 * nt), if swgb then 84 else 64)))
       \<and> onHeader d 0 (Some e) bytesRead buf0 = Failed e)"
proof -
  define buf0 where "buf0 = take 84 (contents @ replicate 84 (CHR 0x00))"
  have r: "fs_read contents HEADER_SIZE_SWGB 0 = (min (length contents) 84, buf0)"
    by (simp add: fs_read_padded HEADER_SIZE_SWGB_def buf0_def)
  have len: "length buf0 = 84" by (simp add: buf0_def)
  have f: "onHeader d 0 (Some e) (min (length contents) 84) buf0 = Failed e"
    by (simp add: onHeader_def)
  from onHeader_layout [OF len, of d "min (length contents) 84"] f
  show ?thesis
    unfolding r by (simp only: Let_def prod.case buf0_def [symmetric] simp_thms)
qed

text \<open>
  The claim as stated fails on a 64-byte file, a complete archive of the base variant
  with no tables: the input has fewer than 84 bytes, and the whole directory is read
  without an error.
\<close>

theorem onHeader_short_input_counterexample:
  "length (replicate 40 (CHR ''x'') @ ''1.00'' @ ''tribe'' @ replicate 7 (CHR 0x00)
      @ [CHR 0x00, CHR 0x00, CHR 0x00, CHR 0x00] @ [CHR 0x40, CHR 0x00, CHR 0x00, CHR 0x00])
     < HEADER_SIZE_SWGB
   \<and> readDirectory
       (replicate 40 (CHR ''x'') @ ''1.00'' @ ''tribe'' @ replicate 7 (CHR 0x00)
        @ [CHR 0x00, CHR 0x00, CHR 0x00, CHR 0x00] @ [CHR 0x40, CHR 0x00, CHR 0x00, CHR 0x00])
       (DRS ''f'')
     = Inr ((DRS ''f'')\<lparr> isSWGB := Some False,
          copyright := Some (replicate 40 (CHR ''x'')), fileVersion := Some ''1.00'',
          fileType := Some (''tribe'' @ replicate 7 (CHR 0x00)),
          numTables := Some 0, firstFileOffset := Some 64, epoch := 1 \<rparr>)"
  by (simp add: readDirectory_def fs_read_def onHeader_def onTableInfo_def onTables_def
      COPYRIGHT_SWGB_def slice_def toString_ascii_def headerStruct_def
      readInt32LE_def readUInt32LE_def andThen_def ToInt32_def assign_def Buffer_alloc_def
      TABLE_META_SIZE_def FILE_META_SIZE_def HEADER_SIZE_SWGB_def HEADER_SIZE_AOE_def
      DRS_def eval_nat_numeral)

section \<open>Proofs: the type dispatch\<close>

text \<open>
  C9 (as amended). The dispatch of \<^verbatim>\<open>readFile\<close> is a total function into the four classes
  \<^verbatim>\<open>SLPFile\<close> (sprite), \<^verbatim>\<open>WAVFile\<close> (audio), \<^verbatim>\<open>PaletteFile\<close> and \<^verbatim>\<open>DRSFile\<close> (generic). The
  sprite and audio outcomes depend on the entry's type tag alone. The palette outcome
  occurs exactly when the tag is \<^verbatim>\<open>'bina'\<close> and the first 8 bytes of the payload, decoded as
  ASCII (the high bit of each byte ignored), spell \<^verbatim>\<open>JASC-PAL\<close>. Every other combination
  is generic.
\<close>

theorem fileInst_classification:
  "(fileInst f buf = SLPFile \<longleftrightarrow> file_type f = ''slp '')
   \<and> (fileInst f buf = WAVFile \<longleftrightarrow> file_type f = ''wav '')
   \<and> (fileInst f buf = PaletteFile \<longleftrightarrow>
        file_type f = ''bina'' \<and> toString_ascii (slice buf 0 8) = ''JASC-PAL'')
   \<and> (fileInst f buf = DRSFile \<longleftrightarrow>
        file_type f \<noteq> ''slp '' \<and> file_type f \<noteq> ''wav '' \<and>
        \<not> (file_type f = ''bina'' \<and> toString_ascii (slice buf 0 8) = ''JASC-PAL''))
   \<and> fileInst f buf \<in> {SLPFile, WAVFile, PaletteFile, DRSFile}"
  by (simp add: fileInst_def)

text \<open>
  The claim as stated compares bytes. A payload that starts with the byte \<open>0xCA\<close> (the
  letter J with its high bit set) followed by \<^verbatim>\<open>ASC-PAL\<close> does not start with the eight
  bytes of the magic prefix, and is classified as a palette.
\<close>

theorem fileInst_high_bit_counterexample:
  "fileInst (newFile ''bina'' 1) (CHR 0xCA # ''ASC-PAL'') = PaletteFile
   \<and> slice (CHR 0xCA # ''ASC-PAL'') 0 8 \<noteq> ''JASC-PAL''"
  by (simp add: fileInst_def newFile_def slice_def toString_ascii_def)

section \<open>Proofs: the builder\<close>

declare getTable_loop.simps [simp del]

lemma onbuffer_ok:
  "onbuffer f t None b =
     (t\<lparr> files := files t @ [f\<lparr> file_buffer := Some b, file_size := Some (int (length b)) \<rparr>],
         numFiles := int (length (files t)) + 1 \<rparr>,
      Inr (f\<lparr> file_buffer := Some b, file_size := Some (int (length b)) \<rparr>))"
  by (simp add: onbuffer_def Let_def)

lemma onbuffer_err: "onbuffer f t (Some e) b = (t, Inl e)"
  by (simp add: onbuffer_def)

lemma onbuffer_count:
  "numFiles t = int (length (files t)) \<Longrightarrow>
   numFiles (fst (onbuffer f t err b)) = int (length (files (fst (onbuffer f t err b))))"
  by (cases err) (simp_all add: onbuffer_ok onbuffer_err)

lemma getTable_loop_result:
  "getTable_loop ts tag i tv = Some k \<Longrightarrow> (tv = Some k \<and> length ts \<le> i) \<or> (i \<le> k \<and> k < length ts)"
proof (induction ts tag i tv rule: getTable_loop.induct)
  case (1 ts tag i table)
  show ?case
  proof (cases "i < length ts")
    case True
    show ?thesis
    proof (cases "ext (ts ! i) = tag")
      case t: True
      with True "1.prems" have "k = i" by (subst (asm) getTable_loop.simps) simp
      with True show ?thesis by simp
    next
      case False
      with True "1.prems" have "getTable_loop ts tag (i + 1) (Some i) = Some k"
        by (subst (asm) getTable_loop.simps) simp
      from "1.IH" [OF True False this] True show ?thesis by auto
    qed
  next
    case False
    with "1.prems" have "table = Some k" by (subst (asm) getTable_loop.simps) simp
    with False show ?thesis by simp
  qed
qed

lemma getTable_loop_None:
  "getTable_loop ts tag i tv = None \<Longrightarrow> tv = None \<and> length ts \<le> i"
proof (induction ts tag i tv rule: getTable_loop.induct)
  case (1 ts tag i table)
  show ?case
  proof (cases "i < length ts")
    case True
    show ?thesis
    proof (cases "ext (ts ! i) = tag")
      case t: True
      with True "1.prems" show ?thesis by (subst (asm) getTable_loop.simps) simp
    next
      case False
      with True "1.prems" have "getTable_loop ts tag (i + 1) (Some i) = None"
        by (subst (asm) getTable_loop.simps) simp
      from "1.IH" [OF True False this] show ?thesis by simp
    qed
  next
    case False
    with "1.prems" show ?thesis by (subst (asm) getTable_loop.simps) simp
  qed
qed

text \<open>What the loop of \<open>getTable\<close> computes: the first table with the tag if there is one,
  else the last table, else (no tables) nothing.\<close>

lemma getTable_loop_found:
  "i \<le> length ts \<Longrightarrow> \<exists>t \<in> set (drop i ts). ext t = tag \<Longrightarrow>
   \<exists>k. getTable_loop ts tag i tv = Some k \<and> i \<le> k \<and> k < length ts \<and> ext (ts ! k) = tag
     \<and> (\<forall>j. i \<le> j \<and> j < k \<longrightarrow> ext (ts ! j) \<noteq> tag)"
proof (induction ts tag i tv rule: getTable_loop.induct)
  case (1 ts tag i table)
  from "1.prems" have lt: "i < length ts" by (cases "i = length ts") auto
  show ?case
  proof (cases "ext (ts ! i) = tag")
    case True
    with lt have "getTable_loop ts tag i table = Some i" by (subst getTable_loop.simps) simp
    with lt True show ?thesis by auto
  next
    case False
    from lt have d: "drop i ts = ts ! i # drop (i + 1) ts" by (simp add: Cons_nth_drop_Suc)
    with "1.prems"(2) False have ex: "\<exists>t \<in> set (drop (i + 1) ts). ext t = tag" by auto
    from lt have "i + 1 \<le> length ts" by simp
    from "1.IH" [OF lt False this ex] obtain k where
      k: "getTable_loop ts tag (i + 1) (Some i) = Some k" "i + 1 \<le> k" "k < length ts" "ext (ts ! k) = tag"
        "\<forall>j. i + 1 \<le> j \<and> j < k \<longrightarrow> ext (ts ! j) \<noteq> tag" by blast
    from lt False k(1) have "getTable_loop ts tag i table = Some k"
      by (subst getTable_loop.simps) simp
    moreover have "\<forall>j. i \<le> j \<and> j < k \<longrightarrow> ext (ts ! j) \<noteq> tag"
    proof (intro allI impI)
      fix j assume "i \<le> j \<and> j < k"
      then show "ext (ts ! j) \<noteq> tag" using False k(5) by (cases "j = i") auto
    qed
    ultimately show ?thesis using k by auto
  qed
qed

lemma getTable_loop_not_found:
  "i \<le> length ts \<Longrightarrow> \<forall>t \<in> set (drop i ts). ext t \<noteq> tag \<Longrightarrow>
   getTable_loop ts tag i tv = (if i < length ts then Some (length ts - 1) else tv)"
proof (induction ts tag i tv rule: getTable_loop.induct)
  case (1 ts tag i table)
  show ?case
  proof (cases "i < length ts")
    case True
    then have d: "drop i ts = ts ! i # drop (i + 1) ts" by (simp add: Cons_nth_drop_Suc)
    with "1.prems"(2) have ne: "ext (ts ! i) \<noteq> tag" and rest: "\<forall>t \<in> set (drop (i + 1) ts). ext t \<noteq> tag"
      by auto
    from True have "i + 1 \<le> length ts" by simp
    from "1.IH" [OF True ne this rest]
    have "getTable_loop ts tag (i + 1) (Some i) = (if i + 1 < length ts then Some (length ts - 1) else Some i)" .
    with True ne show ?thesis
      by (subst getTable_loop.simps) (auto simp add: not_less)
  next
    case False
    then show ?thesis by (subst getTable_loop.simps) simp
  qed
qed

lemma getTable_cases:
  "(tables d = [] \<and>
      getTable d tag = (d\<lparr> tables := [\<lparr> ext = tag, table_offset = None, numFiles = 0, files = [] \<rparr>],
                          numTables := Some 1 \<rparr>, 0))
   \<or> (tables d \<noteq> [] \<and> (\<exists>i < length (tables d). getTable d tag = (d, i)))"
proof (cases "tables d = []")
  case True
  then have "getTable_loop (tables d) tag 0 None = None"
    by (subst getTable_loop.simps) simp
  with True show ?thesis by (simp add: getTable_def Let_def)
next
  case False
  then have lt: "0 < length (tables d)" by simp
  have "\<exists>k < length (tables d). getTable_loop (tables d) tag 0 None = Some k"
  proof (cases "\<exists>t \<in> set (tables d). ext t = tag")
    case True
    with getTable_loop_found [of 0 "tables d" tag None] show ?thesis by auto
  next
    case False
    with getTable_loop_not_found [of 0 "tables d" tag None] lt show ?thesis by auto
  qed
  then obtain k where "k < length (tables d)" "getTable_loop (tables d) tag 0 None = Some k" by blast
  with False show ?thesis by (auto simp add: getTable_def)
qed

lemma getTable_found:
  assumes "\<exists>t \<in> set (tables d). ext t = tag"
  shows "\<exists>i < length (tables d). getTable d tag = (d, i) \<and> ext (tables d ! i) = tag
     \<and> (\<forall>j < i. ext (tables d ! j) \<noteq> tag)"
proof -
  from getTable_loop_found [of 0 "tables d" tag None] assms
  obtain k where "getTable_loop (tables d) tag 0 None = Some k" "k < length (tables d)"
    "ext (tables d ! k) = tag" "\<forall>j. 0 \<le> j \<and> j < k \<longrightarrow> ext (tables d ! j) \<noteq> tag" by auto
  then show ?thesis by (auto simp add: getTable_def)
qed

lemma getTable_not_found:
  assumes "tables d \<noteq> []" "\<forall>t \<in> set (tables d). ext t \<noteq> tag"
  shows "getTable d tag = (d, length (tables d) - 1)"
proof -
  from assms(1) have "0 < length (tables d)" by simp
  with getTable_loop_not_found [of 0 "tables d" tag None] assms(2)
  have "getTable_loop (tables d) tag 0 None = Some (length (tables d) - 1)" by simp
  then show ?thesis by (simp add: getTable_def)
qed

text \<open>
  C1 (the code departs from the claim). \<^verbatim>\<open>getTable\<close> uses the first table with the tag when
  there is one (\<open>getTable_found\<close>) and creates a table when the list is empty
  (\<open>getTable_cases\<close>). When the list is not empty and no table has the tag, the loop
  leaves \<^verbatim>\<open>table\<close> on the last table, \<^verbatim>\<open>!table\<close> is false, and that last table is returned:
  no table is created and \<^verbatim>\<open>numTables\<close> does not grow (\<open>getTable_not_found\<close>). Evaluated:
  on a handle whose only table is \<^verbatim>\<open>'slp '\<close>, \<^verbatim>\<open>getTable(drs, 'wav ')\<close> returns that table;
  and after \<^verbatim>\<open>putFile('slp ', 1, a)\<close> and \<^verbatim>\<open>putFile('wav ', 2, bc)\<close> have completed, the
  archive has the single table \<^verbatim>\<open>'slp '\<close> holding both entries, the second typed
  \<^verbatim>\<open>'wav '\<close>.
\<close>

theorem putFile_unmatched_tag:
  "getTable ((DRS ''f'')\<lparr> tables := [\<lparr> ext = ''slp '', table_offset = None, numFiles = 0, files = [] \<rparr>],
                         numTables := Some 1 \<rparr>) ''wav ''
     = ((DRS ''f'')\<lparr> tables := [\<lparr> ext = ''slp '', table_offset = None, numFiles = 0, files = [] \<rparr>],
                      numTables := Some 1 \<rparr>, 0)
   \<and> tablesAfter
       [Call (CallPutFile ''slp '' 1 (IsBuffer ''a'')), Turn 0 None False,
        Call (CallPutFile ''wav '' 2 (IsBuffer ''bc'')), Turn 0 None False]
       (newWorld ''f'' [])
     = Inr [\<lparr> ext = ''slp '', table_offset = None, numFiles = 2,
              files = [\<lparr> file_id = 1, file_offset = None, file_size = Some 1,
                         file_type = ''slp '', file_buffer = Some ''a'' \<rparr>,
                       \<lparr> file_id = 2, file_offset = None, file_size = Some 2,
                         file_type = ''wav '', file_buffer = Some ''bc'' \<rparr>] \<rparr>]"
  by code_simp

section \<open>Proofs: the directory read\<close>

lemma andThen_Inr: "andThen r f = Inr y \<longleftrightarrow> (\<exists>x. r = Inr x \<and> f x = Inr y)"
  by (cases r) (simp_all add: andThen_def)

lemma tableStruct_files: "tableStruct buf off = Inr t \<Longrightarrow> files t = []"
  by (auto simp add: tableStruct_def andThen_Inr)

lemma tables_array_files:
  "tables_array n buf off = Inr ts \<Longrightarrow> list_all (\<lambda>t. files t = []) ts"
proof (induction n arbitrary: off ts)
  case 0
  then show ?case by simp
next
  case (Suc n)
  from Suc.prems obtain t ts' where t: "tableStruct buf off = Inr t"
    and ts': "tables_array n buf (off + TABLE_META_SIZE) = Inr ts'" and ts: "ts = t # ts'"
    by (auto simp add: andThen_Inr)
  from Suc.IH [OF ts'] tableStruct_files [OF t] ts show ?case by simp
qed

lemma onTables_files_made:
  "onTables_files buf offset tag l = Inr (fs, offset') \<Longrightarrow>
   length fs = l \<and> list_all (\<lambda>f. file_type f = tag \<and> sized f) fs"
proof (induction l arbitrary: offset fs offset')
  case 0
  then show ?case by simp
next
  case (Suc l)
  from Suc.prems obtain i ofs sz fs' where
    rest: "onTables_files buf (offset + 12) tag l = Inr (fs', offset')"
    and fs: "fs = \<lparr> file_id = i, file_offset = Some ofs, file_size = Some sz, file_type = tag,
             file_buffer = None \<rparr> # fs'"
    by (auto simp add: andThen_Inr)
  from Suc.IH [OF rest] fs show ?case by (simp add: sized_def)
qed

lemma onTables_forEach_made:
  "onTables_forEach buf offset ts = Inr ts' \<Longrightarrow>
   list_all2 (\<lambda>t t'. ext t' = ext t \<and> numFiles t' = numFiles t \<and> table_offset t' = table_offset t \<and>
       (\<exists>fs. files t' = files t @ fs \<and> length fs = nat (numFiles t)
          \<and> list_all (\<lambda>f. file_type f = ext t \<and> sized f) fs)) ts ts'"
proof (induction ts arbitrary: offset ts')
  case Nil
  then show ?case by simp
next
  case (Cons t ts)
  from Cons.prems obtain fs offset' rest' where
    fs: "onTables_files buf offset (ext t) (nat (numFiles t)) = Inr (fs, offset')"
    and rest: "onTables_forEach buf offset' ts = Inr rest'"
    and ts': "ts' = t\<lparr> files := files t @ fs \<rparr> # rest'"
    by (auto simp add: andThen_Inr)
  from onTables_files_made [OF fs] Cons.IH [OF rest] ts' show ?case by auto
qed

lemma onTableInfo_Continue:
  "onTableInfo d fileOffset err n buf = Continue (d', len, off) \<Longrightarrow>
   list_all (\<lambda>t. files t = []) (tables d')"
  by (auto simp add: onTableInfo_def Let_def dest: tables_array_files
      split: option.splits sum.splits)

lemma onTables_Continue:
  "onTables d err n buf = Continue d' \<Longrightarrow>
   list_all2 (\<lambda>t t'. ext t' = ext t \<and> numFiles t' = numFiles t \<and> table_offset t' = table_offset t \<and>
       (\<exists>fs. files t' = files t @ fs \<and> length fs = nat (numFiles t)
          \<and> list_all (\<lambda>f. file_type f = ext t \<and> sized f) fs)) (tables d) (tables d')"
  by (auto simp add: onTables_def dest: onTables_forEach_made split: option.splits sum.splits)

lemma readDirectory_stages:
  assumes "readDirectory contents d = Inr d3"
  shows "\<exists>d1 len1 off1 d2 len2 off2.
     onHeader d 0 None (fst (fs_read contents HEADER_SIZE_SWGB 0))
       (snd (fs_read contents HEADER_SIZE_SWGB 0)) = Continue (d1, len1, off1)
     \<and> onTableInfo d1 off1 None (fst (fs_read contents len1 off1))
       (snd (fs_read contents len1 off1)) = Continue (d2, len2, off2)
     \<and> onTables d2 None (fst (fs_read contents len2 off2))
       (snd (fs_read contents len2 off2)) = Continue d3"
  using assms
  by (auto simp add: readDirectory_def Let_def split: prod.splits outcome.splits)

section \<open>Proofs: the entries of every table have a size\<close>

lemma handle_notify [simp]: "handle (notify n w) = handle w"
  by (simp add: notify_def)

lemma handle_issue [simp]: "handle (issue x w) = handle w"
  by (simp add: issue_def)

lemma handle_open [simp]: "handle (open cb w) = handle w"
  by (simp add: open_def)

lemma handle_read [simp]: "handle (read cb w) = handle w"
  by (simp add: read_def split: option.splits)

lemma handle_stream_write [simp]: "handle (stream_write s chunk w) = handle w"
  by (simp add: stream_write_def)

lemma handle_onFileRead [simp]: "handle (onFileRead fdn len position f err w) = handle w"
  by (simp add: onFileRead_def Let_def split: option.splits prod.splits)

lemma handle_pumped [simp]: "handle (pumped s src err w) = handle w"
  by (simp add: pumped_def Let_def split: option.splits)

lemma handle_emit_error: "emit_error s e listening w = Inr w' \<Longrightarrow> handle w' = handle w"
  by (auto simp add: emit_error_def split: if_splits)

lemma handle_onfinish: "onfinish s res listening w = Inr w' \<Longrightarrow> handle w' = handle w"
  by (auto simp add: onfinish_def dest: handle_emit_error split: sum.splits)

lemma handle_readFile: "readFile fileId w = Inr w' \<Longrightarrow> handle w' = handle w"
  by (auto simp add: readFile_def andThen_Inr split: if_splits sum.splits option.splits)

lemma handle_onread: "onread s fileId err listening w = Inr w' \<Longrightarrow> handle w' = handle w"
  by (auto simp add: onread_def andThen_Inr Let_def dest: handle_emit_error
      split: if_splits sum.splits option.splits prod.splits)

lemma handle_createReadStream:
  "createReadStream fileId w = Inr w' \<Longrightarrow> handle w' = handle w"
  by (auto simp add: createReadStream_def Let_def dest: handle_onread split: if_splits)

lemma handle_callback_error:
  "callback_error cb e listening w = Inr w' \<Longrightarrow> handle w' = handle w"
  by (cases cb) (auto dest: handle_onread)

lemma handle_callback_ok:
  "callback_ok cb listening w = Inr w' \<Longrightarrow> handle w' = handle w"
  by (cases cb) (auto dest: handle_onread handle_readFile)

lemma onHeader_tables:
  "onHeader d fileOffset err n buf = Continue (d', len, off) \<Longrightarrow> tables d' = tables d"
  by (auto simp add: onHeader_def Let_def assign_def split: option.splits sum.splits)

lemma allSized_getTable: "allSized d \<Longrightarrow> allSized (fst (getTable d tag))"
  using getTable_cases [of d tag] by (auto simp add: allSized_def)

lemma countsAgree_getTable: "countsAgree d \<Longrightarrow> countsAgree (fst (getTable d tag))"
  using getTable_cases [of d tag] by (auto simp add: countsAgree_def)

lemma sized_onbuffer:
  "onbuffer f t err b = (t', Inr f') \<Longrightarrow>
   sized f' \<and> file_buffer f' = Some b \<and> file_size f' = Some (int (length b)) \<and> files t' = files t @ [f']"
  by (cases err) (auto simp add: onbuffer_ok onbuffer_err sized_def)

lemma files_onbuffer:
  "list_all sized (files t) \<Longrightarrow> list_all sized (files (fst (onbuffer f t err b)))"
  by (cases err) (simp_all add: onbuffer_ok onbuffer_err sized_def)

lemma run_onbuffer_tables:
  "run_onbuffer f (TableRef ep i) err b w = (w', res) \<Longrightarrow>
   tables (handle w') = tables (handle w)
   \<or> (ep = epoch (handle w) \<and> i < length (tables (handle w)) \<and>
      tables (handle w') = (tables (handle w))[i := fst (onbuffer f (tables (handle w) ! i) err b)])"
  by (auto simp add: run_onbuffer_def Let_def split: if_splits prod.splits)

lemma allSized_run_onbuffer:
  assumes "run_onbuffer f table err b w = (w', res)" "allSized (handle w)"
  shows "allSized (handle w')"
proof -
  obtain ep i where t: "table = TableRef ep i" by (cases table)
  from run_onbuffer_tables [OF assms(1) [unfolded t]] show ?thesis
  proof
    assume "tables (handle w') = tables (handle w)"
    with assms(2) show ?thesis by (simp add: allSized_def)
  next
    assume a: "ep = epoch (handle w) \<and> i < length (tables (handle w)) \<and>
      tables (handle w') = (tables (handle w))[i := fst (onbuffer f (tables (handle w) ! i) err b)]"
    with assms(2) have "list_all sized (files (tables (handle w) ! i))"
      by (simp add: allSized_def list_all_length)
    then have "list_all sized (files (fst (onbuffer f (tables (handle w) ! i) err b)))"
      by (rule files_onbuffer)
    with a assms(2) show ?thesis
      by (auto simp add: allSized_def list_all_length nth_list_update)
  qed
qed

lemma countsAgree_run_onbuffer:
  assumes "run_onbuffer f table err b w = (w', res)" "countsAgree (handle w)"
  shows "countsAgree (handle w')"
proof -
  obtain ep i where t: "table = TableRef ep i" by (cases table)
  from run_onbuffer_tables [OF assms(1) [unfolded t]] show ?thesis
  proof
    assume "tables (handle w') = tables (handle w)"
    with assms(2) show ?thesis by (simp add: countsAgree_def)
  next
    assume a: "ep = epoch (handle w) \<and> i < length (tables (handle w)) \<and>
      tables (handle w') = (tables (handle w))[i := fst (onbuffer f (tables (handle w) ! i) err b)]"
    with assms(2) have "numFiles (tables (handle w) ! i) = int (length (files (tables (handle w) ! i)))"
      by (simp add: countsAgree_def list_all_length)
    then have "numFiles (fst (onbuffer f (tables (handle w) ! i) err b))
        = int (length (files (fst (onbuffer f (tables (handle w) ! i) err b))))"
      by (rule onbuffer_count)
    with a assms(2) show ?thesis
      by (auto simp add: countsAgree_def list_all_length nth_list_update)
  qed
qed

lemma allSized_onTableInfo:
  "onTableInfo d fileOffset err n buf = Continue (d', len, off) \<Longrightarrow> allSized d'"
proof -
  assume "onTableInfo d fileOffset err n buf = Continue (d', len, off)"
  then have "list_all (\<lambda>t. files t = []) (tables d')" by (rule onTableInfo_Continue)
  then show ?thesis by (simp add: allSized_def list_all_iff)
qed

lemma allSized_onTables:
  assumes "onTables d err n buf = Continue d'" "allSized d"
  shows "allSized d'"
proof -
  note r = onTables_Continue [OF assms(1)]
  from r have l: "length (tables d) = length (tables d')" by (rule list_all2_lengthD)
  have "list_all sized (files (tables d' ! i))" if i: "i < length (tables d')" for i
  proof -
    from r i l have "\<exists>fs. files (tables d' ! i) = files (tables d ! i) @ fs
        \<and> list_all (\<lambda>f. file_type f = ext (tables d ! i) \<and> sized f) fs"
      by (auto simp add: list_all2_conv_all_nth)
    moreover from assms(2) i l have "list_all sized (files (tables d ! i))"
      by (simp add: allSized_def list_all_length)
    ultimately show ?thesis by (auto simp add: list_all_iff)
  qed
  then show ?thesis by (simp add: allSized_def list_all_length)
qed

lemma allSized_fire:
  assumes "fire x err listening w = Inr w'" "allSized (handle w)"
  shows "allSized (handle w')"
proof (cases x)
  case (FsOpen cb)
  with assms show ?thesis
    by (cases cb; cases err)
       (auto simp add: Let_def allSized_def dest!: handle_callback_error)
next
  case (FsReadHeader fdn cb)
  with assms show ?thesis
    by (auto simp add: Let_def allSized_def
        dest!: handle_callback_error onHeader_tables split: prod.splits outcome.splits)
next
  case (FsReadTableInfo fdn len fileOffset cb)
  with assms show ?thesis
    by (auto simp add: Let_def dest!: handle_callback_error
        dest: allSized_onTableInfo split: prod.splits outcome.splits)
next
  case (FsReadTables fdn len fileOffset cb)
  with assms show ?thesis
    by (auto simp add: Let_def dest!: handle_callback_error handle_callback_ok
        dest: allSized_onTables split: prod.splits outcome.splits)
next
  case (FsReadFile fdn len position f)
  with assms show ?thesis by auto
next
  case (SetTimeout f table b)
  with assms show ?thesis
    by (auto simp add: Let_def dest: allSized_run_onbuffer split: prod.splits)
next
  case (Concat f table chunks)
  with assms show ?thesis
    by (auto simp add: Let_def dest: allSized_run_onbuffer split: prod.splits)
next
  case (WriteStream s f table dat)
  with assms show ?thesis
    by (auto simp add: Let_def dest: allSized_run_onbuffer dest!: handle_onfinish split: prod.splits)
next
  case (Pump s src)
  with assms show ?thesis by auto
qed

lemma allSized_complete:
  "complete i err listening w = Inr w' \<Longrightarrow> allSized (handle w) \<Longrightarrow> allSized (handle w')"
  by (auto simp add: complete_def dest: allSized_fire split: if_splits)

lemma allSized_call: "allSized (handle w) \<Longrightarrow> allSized (handle (call r w))"
proof (cases r)
  case (CallPutFile tag fileId dat)
  assume "allSized (handle w)"
  then have "allSized (fst (getTable (handle w) tag))" by (rule allSized_getTable)
  with CallPutFile show ?thesis
    by (cases dat) (auto simp add: putFile_def Let_def split: prod.splits)
next
  case (CallCreateWriteStream tag fileId)
  assume "allSized (handle w)"
  then have "allSized (fst (getTable (handle w) tag))" by (rule allSized_getTable)
  with CallCreateWriteStream show ?thesis
    by (auto simp add: createWriteStream_def Let_def split: prod.splits)
qed (auto dest: handle_readFile handle_createReadStream split: sum.splits)

lemma allSized_reachable: "reachable w \<Longrightarrow> allSized (handle w)"
proof (induction rule: reachable.induct)
  case (start name contents)
  show ?case by (simp add: newWorld_def DRS_def allSized_def)
next
  case (called w r)
  then show ?case by (simp add: allSized_call)
next
  case (turned w i err listening w')
  then show ?case by (auto dest: allSized_complete)
qed

lemma sized_onbuffer_snd:
  "snd (onbuffer f t err b) = Inr f' \<Longrightarrow> sized f' \<and> file_buffer f' = Some b"
  by (cases err) (auto simp add: onbuffer_ok onbuffer_err sized_def)

text \<open>
  C10. An entry with a payload gets into a table in one place only, \<open>onbuffer\<close>, which
  is called with the whole payload (the buffer given, or the concatenation of all chunks)
  and sets \<^verbatim>\<open>buffer\<close> and \<^verbatim>\<open>size\<close> before it pushes the entry.
  \<^item> In every world the handle can reach, every entry of every table has a size that is
    not \<^verbatim>\<open>null\<close>, equal to the byte length of its payload when it has one.
  \<^item> \<open>onbuffer\<close> without an error returns the table with the entry, its payload and size
    set, appended last, and hands that same entry to the callback; with an error it hands
    the error to the callback and appends nothing.
  \<^item> Run on the handle, whenever the callback receives an entry, the entry has its size
    and payload set; and when the table object is still one of the handle's tables, the
    entry is the last of that table in the world in which the callback runs. (When a
    directory read has replaced the tables in between, the entry is in the table object
    the closure holds, which the handle no longer reaches.)
\<close>

theorem entries_have_resolved_size:
  "(reachable w \<longrightarrow> allSized (handle w))
   \<and> onbuffer f t None b =
       (t\<lparr> files := files t @ [f\<lparr> file_buffer := Some b, file_size := Some (int (length b)) \<rparr>],
           numFiles := int (length (files t)) + 1 \<rparr>,
        Inr (f\<lparr> file_buffer := Some b, file_size := Some (int (length b)) \<rparr>))
   \<and> onbuffer f t (Some e) b = (t, Inl e)
   \<and> (run_onbuffer f (TableRef ep i) err b w = (w', Inr f') \<longrightarrow>
        sized f' \<and> file_buffer f' = Some b \<and>
        (ep = epoch (handle w) \<and> i < length (tables (handle w)) \<longrightarrow>
           files (tables (handle w') ! i) = files (tables (handle w) ! i) @ [f']))"
proof (intro conjI impI)
  assume "reachable w"
  then show "allSized (handle w)" by (rule allSized_reachable)
next
  show "onbuffer f t None b =
       (t\<lparr> files := files t @ [f\<lparr> file_buffer := Some b, file_size := Some (int (length b)) \<rparr>],
           numFiles := int (length (files t)) + 1 \<rparr>,
        Inr (f\<lparr> file_buffer := Some b, file_size := Some (int (length b)) \<rparr>))"
    by (rule onbuffer_ok)
  show "onbuffer f t (Some e) b = (t, Inl e)" by (rule onbuffer_err)
next
  assume r: "run_onbuffer f (TableRef ep i) err b w = (w', Inr f')"
  have s: "sized f' \<and> file_buffer f' = Some b"
  proof (cases "ep = epoch (handle w) \<and> i < length (tables (handle w))")
    case True
    with r obtain t' where "onbuffer f (tables (handle w) ! i) err b = (t', Inr f')"
      by (auto simp add: run_onbuffer_def Let_def split: prod.splits)
    from sized_onbuffer [OF this] show ?thesis by simp
  next
    case False
    with r obtain t0 where "snd (onbuffer f t0 err b) = Inr f'"
      by (auto simp add: run_onbuffer_def Let_def split: prod.splits)
    from sized_onbuffer_snd [OF this] show ?thesis .
  qed
  then show "sized f'" and "file_buffer f' = Some b" by simp_all
  assume a: "ep = epoch (handle w) \<and> i < length (tables (handle w))"
  with r obtain t' where o: "onbuffer f (tables (handle w) ! i) err b = (t', Inr f')"
    and w': "tables (handle w') = (tables (handle w))[i := t']"
    by (auto simp add: run_onbuffer_def Let_def split: prod.splits)
  from sized_onbuffer [OF o] w' a
  show "files (tables (handle w') ! i) = files (tables (handle w) ! i) @ [f']" by simp
qed

theorem entries_have_resolved_size_witness:
  "reachable (call (CallPutFile ''bina'' 1 (IsBuffer ''hello'')) (newWorld ''f'' []))
   \<and> allSized (handle (call (CallPutFile ''bina'' 1 (IsBuffer ''hello'')) (newWorld ''f'' [])))
   \<and> (\<exists>w'. run_onbuffer (newFile ''bina'' 1) (TableRef 0 0) None ''hello''
          (call (CallPutFile ''bina'' 1 (IsBuffer ''hello'')) (newWorld ''f'' []))
        = (w', Inr \<lparr> file_id = 1, file_offset = None, file_size = Some 5,
                      file_type = ''bina'', file_buffer = Some ''hello'' \<rparr>)
        \<and> files (tables (handle w') ! 0)
          = [\<lparr> file_id = 1, file_offset = None, file_size = Some 5,
                file_type = ''bina'', file_buffer = Some ''hello'' \<rparr>])
   \<and> sized \<lparr> file_id = 1, file_offset = None, file_size = Some 5,
              file_type = ''bina'', file_buffer = Some ''hello'' \<rparr>"
proof -
  define w where "w = call (CallPutFile ''bina'' 1 (IsBuffer ''hello'')) (newWorld ''f'' [])"
  define f' where "f' = \<lparr> file_id = 1, file_offset = None, file_size = Some 5,
              file_type = ''bina'', file_buffer = Some ''hello'' \<rparr>"
  have r: "reachable w" unfolding w_def by (rule reachable.called) (rule reachable.start)
  have "snd (run_onbuffer (newFile ''bina'' 1) (TableRef 0 0) None ''hello'' w) = Inr f'"
    unfolding w_def f'_def by code_simp
  then obtain w' where o: "run_onbuffer (newFile ''bina'' 1) (TableRef 0 0) None ''hello'' w = (w', Inr f')"
    by (metis prod.collapse)
  have e: "0 = epoch (handle w) \<and> 0 < length (tables (handle w))" unfolding w_def by code_simp
  have fs: "files (tables (handle w) ! 0) = []" unfolding w_def by code_simp
  note inst = entries_have_resolved_size [of w "newFile ''bina'' 1" _ "''hello''" _ 0 0 None w' f']
  from inst r have 1: "allSized (handle w)" by blast
  from inst o have 2: "sized f'" by blast
  from inst o e fs have 3: "files (tables (handle w') ! 0) = [f']" by simp
  from r 1 o 2 3 show ?thesis unfolding w_def f'_def by blast
qed

section \<open>Proofs: the invariant of the tables\<close>

lemma ownTable_same:
  assumes "tables d' = tables d" "epoch d' = epoch d"
  shows "ownTable d' = ownTable d"
proof
  fix x
  from assms show "ownTable d' x = ownTable d x"
    by (induction d x rule: ownTable.induct) simp_all
qed

lemma ownTable_mono:
  assumes "ownTable d x" "epoch d' = epoch d" "length (tables d) \<le> length (tables d')"
    and "\<And>i. i < length (tables d) \<Longrightarrow> ext (tables d' ! i) = ext (tables d ! i)"
  shows "ownTable d' x"
  using assms by (induction d x rule: ownTable.induct) auto

lemma ownTable_newer: "ownTable d x \<Longrightarrow> epoch d < epoch d' \<Longrightarrow> ownTable d' x"
  by (induction d x rule: ownTable.induct) auto

lemma list_all_take_drop:
  "list_all P xs \<Longrightarrow> list_all P (take k xs)" "list_all P xs \<Longrightarrow> list_all P (drop k xs)"
  by (auto simp add: list_all_iff dest: in_set_takeD in_set_dropD)

lemma pending_readFile:
  "readFile fileId w = Inr w' \<Longrightarrow> list_all (ownTable d) (pending w) \<Longrightarrow>
   list_all (ownTable d) (pending w')"
  by (auto simp add: readFile_def andThen_Inr read_def open_def issue_def notify_def
      split: if_splits sum.splits option.splits)

lemma pending_emit_error:
  "emit_error s e listening w = Inr w' \<Longrightarrow> pending w' = pending w"
  by (auto simp add: emit_error_def notify_def split: if_splits)

lemma pending_onread:
  "onread s fileId err listening w = Inr w' \<Longrightarrow> list_all (ownTable d) (pending w) \<Longrightarrow>
   list_all (ownTable d) (pending w')"
  by (auto simp add: onread_def andThen_Inr Let_def issue_def notify_def
      dest: pending_emit_error split: if_splits sum.splits option.splits prod.splits)

lemma pending_createReadStream:
  "createReadStream fileId w = Inr w' \<Longrightarrow> list_all (ownTable d) (pending w) \<Longrightarrow>
   list_all (ownTable d) (pending w')"
  by (auto simp add: createReadStream_def Let_def read_def open_def issue_def
      dest: pending_onread split: if_splits option.splits)

lemma pending_callback_error:
  "callback_error cb e listening w = Inr w' \<Longrightarrow> list_all (ownTable d) (pending w) \<Longrightarrow>
   list_all (ownTable d) (pending w')"
  by (cases cb) (auto simp add: notify_def dest: pending_onread)

lemma pending_callback_ok:
  "callback_ok cb listening w = Inr w' \<Longrightarrow> list_all (ownTable d) (pending w) \<Longrightarrow>
   list_all (ownTable d) (pending w')"
  by (cases cb) (auto simp add: notify_def dest: pending_onread pending_readFile)

lemma pending_onfinish:
  "onfinish s res listening w = Inr w' \<Longrightarrow> pending w' = pending w"
  by (auto simp add: onfinish_def notify_def dest: pending_emit_error split: sum.splits)

lemma pending_read:
  "list_all (ownTable d) (pending w) \<Longrightarrow> list_all (ownTable d) (pending (read cb w))"
  by (simp add: read_def open_def issue_def split: option.splits)

lemma getTable_shape:
  assumes "getTable d tag = (d', i)"
  shows "epoch d' = epoch d \<and> i < length (tables d')
     \<and> (tables d' = tables d
         \<or> tables d = [] \<and> tables d' = [\<lparr> ext = tag, table_offset = None, numFiles = 0, files = [] \<rparr>])"
  using getTable_cases [of d tag] assms by auto

lemma getTable_tag:
  assumes "getTable d tag = (d', i)" "tables d = [] \<or> (\<exists>t \<in> set (tables d). ext t = tag)"
  shows "ext (tables d' ! i) = tag"
proof (cases "tables d = []")
  case True
  with getTable_cases [of d tag] assms(1) show ?thesis by auto
next
  case False
  with assms(2) have "\<exists>t \<in> set (tables d). ext t = tag" by simp
  from getTable_found [OF this] assms(1) show ?thesis by auto
qed

lemma ownTable_getTable:
  assumes "getTable d tag = (d', i)" "ownTable d x"
  shows "ownTable d' x"
proof -
  from getTable_shape [OF assms(1)] have e: "epoch d' = epoch d"
    and s: "tables d' = tables d
         \<or> tables d = [] \<and> tables d' = [\<lparr> ext = tag, table_offset = None, numFiles = 0, files = [] \<rparr>]"
    by simp_all
  from s have "length (tables d) \<le> length (tables d')" by auto
  moreover from s have "ext (tables d' ! j) = ext (tables d ! j)" if "j < length (tables d)" for j
    using that by auto
  ultimately show ?thesis by (rule ownTable_mono [OF assms(2) e])
qed

lemma onbuffer_ext: "ext (fst (onbuffer f t err b)) = ext t"
  by (cases err) (simp_all add: onbuffer_ok onbuffer_err)

lemma onbuffer_tags:
  "list_all (\<lambda>g. file_type g = ext t) (files t) \<Longrightarrow> file_type f = ext t \<Longrightarrow>
   list_all (\<lambda>g. file_type g = ext t) (files (fst (onbuffer f t err b)))"
  by (cases err) (simp_all add: onbuffer_ok onbuffer_err)

lemma run_onbuffer_rest:
  "run_onbuffer f table err b w = (w', res) \<Longrightarrow>
   epoch (handle w') = epoch (handle w) \<and> pending w' = pending w"
  by (cases table) (auto simp add: run_onbuffer_def Let_def split: if_splits prod.splits)

lemma onHeader_epoch:
  "onHeader d fileOffset err n buf = Continue (d', len, off) \<Longrightarrow> epoch d' = epoch d"
  by (auto simp add: onHeader_def Let_def assign_def split: option.splits sum.splits)

lemma onTableInfo_epoch:
  "onTableInfo d fileOffset err n buf = Continue (d', len, off) \<Longrightarrow> epoch d' = epoch d + 1"
  by (auto simp add: onTableInfo_def Let_def split: option.splits sum.splits)

lemma onTables_epoch:
  "onTables d err n buf = Continue d' \<Longrightarrow> epoch d' = epoch d"
  by (auto simp add: onTables_def split: option.splits sum.splits)

lemma tagsKept_run_onbuffer:
  assumes r: "run_onbuffer f (TableRef ep i) err b w = (w', res)"
    and t: "list_all (\<lambda>t. list_all (\<lambda>f. file_type f = ext t) (files t)) (tables (handle w))"
    and p: "list_all (ownTable (handle w)) (pending w)"
    and o: "ep < epoch (handle w) \<or>
      (ep = epoch (handle w) \<and> i < length (tables (handle w)) \<and> ext (tables (handle w) ! i) = file_type f)"
  shows "tagsKept w'"
proof -
  from run_onbuffer_rest [OF r] have e: "epoch (handle w') = epoch (handle w)"
    and pe: "pending w' = pending w" by simp_all
  from run_onbuffer_tables [OF r] show ?thesis
  proof
    assume s: "tables (handle w') = tables (handle w)"
    with e p have "list_all (ownTable (handle w')) (pending w)"
      by (simp add: ownTable_same [of "handle w'" "handle w"])
    with s t pe show ?thesis by (simp add: tagsKept_def)
  next
    assume a: "ep = epoch (handle w) \<and> i < length (tables (handle w)) \<and>
      tables (handle w') = (tables (handle w))[i := fst (onbuffer f (tables (handle w) ! i) err b)]"
    with o have ty: "file_type f = ext (tables (handle w) ! i)" by auto
    from a t have "list_all (\<lambda>g. file_type g = ext (tables (handle w) ! i)) (files (tables (handle w) ! i))"
      by (simp add: list_all_length)
    from onbuffer_tags [OF this ty]
    have n: "list_all (\<lambda>g. file_type g = ext (fst (onbuffer f (tables (handle w) ! i) err b)))
        (files (fst (onbuffer f (tables (handle w) ! i) err b)))"
      by (simp add: onbuffer_ext)
    from a t n have 1: "list_all (\<lambda>t. list_all (\<lambda>f. file_type f = ext t) (files t)) (tables (handle w'))"
      by (auto simp add: list_all_length nth_list_update)
    have "ownTable (handle w') x" if "ownTable (handle w) x" for x
    proof (rule ownTable_mono [OF that e])
      from a show "length (tables (handle w)) \<le> length (tables (handle w'))" by simp
      fix j assume "j < length (tables (handle w))"
      with a show "ext (tables (handle w') ! j) = ext (tables (handle w) ! j)"
        by (auto simp add: nth_list_update onbuffer_ext)
    qed
    with p have 2: "list_all (ownTable (handle w')) (pending w)" by (auto simp add: list_all_iff)
    from 1 2 pe show ?thesis by (simp add: tagsKept_def)
  qed
qed

lemma tagsKept_handle:
  assumes "tagsKept w" "tables (handle w') = tables (handle w)" "epoch (handle w') = epoch (handle w)"
    and "list_all (ownTable (handle w)) (pending w) \<Longrightarrow> list_all (ownTable (handle w)) (pending w')"
  shows "tagsKept w'"
  using assms by (simp add: tagsKept_def ownTable_same [of "handle w'" "handle w"])

lemma tagsKept_callback_error:
  assumes "callback_error cb e listening w = Inr w'" "tagsKept w"
  shows "tagsKept w'"
  using assms(2) handle_callback_error [OF assms(1)] pending_callback_error [OF assms(1)]
  by (simp add: tagsKept_def)

lemma tagsKept_callback_ok:
  assumes "callback_ok cb listening w = Inr w'" "tagsKept w"
  shows "tagsKept w'"
  using assms(2) handle_callback_ok [OF assms(1)] pending_callback_ok [OF assms(1)]
  by (simp add: tagsKept_def)

lemma tagsKept_onfinish:
  assumes "onfinish s res listening w = Inr w'" "tagsKept w"
  shows "tagsKept w'"
  using assms(2) handle_onfinish [OF assms(1)] pending_onfinish [OF assms(1)]
  by (simp add: tagsKept_def)

lemma tagsKept_notify: "tagsKept (notify n w) = tagsKept w"
  by (simp add: tagsKept_def notify_def)

lemma tagsKept_onTableInfo:
  assumes "onTableInfo (handle w) fileOffset err n buf = Continue (d, len, off)" "tagsKept w"
  shows "tagsKept (issue (FsReadTables fdn len off cb) (w\<lparr> handle := d \<rparr>))"
proof -
  from onTableInfo_Continue [OF assms(1)] have "list_all (\<lambda>t. files t = []) (tables d)" .
  then have 1: "list_all (\<lambda>t. list_all (\<lambda>f. file_type f = ext t) (files t)) (tables d)"
    by (simp add: list_all_iff)
  from onTableInfo_epoch [OF assms(1)] have "epoch (handle w) < epoch d" by simp
  with assms(2) have "list_all (ownTable d) (pending w)"
    by (auto simp add: tagsKept_def list_all_iff intro: ownTable_newer)
  with 1 show ?thesis by (simp add: tagsKept_def issue_def)
qed

lemma tagsKept_onTables:
  assumes "onTables (handle w) err n buf = Continue d" "tagsKept w"
  shows "tagsKept (w\<lparr> handle := d \<rparr>)"
proof -
  note r = onTables_Continue [OF assms(1)]
  from r have l: "length (tables (handle w)) = length (tables d)" by (rule list_all2_lengthD)
  have 1: "list_all (\<lambda>f. file_type f = ext (tables d ! i)) (files (tables d ! i))"
    if i: "i < length (tables d)" for i
  proof -
    from r i l have "ext (tables d ! i) = ext (tables (handle w) ! i) \<and>
        (\<exists>fs. files (tables d ! i) = files (tables (handle w) ! i) @ fs
          \<and> list_all (\<lambda>f. file_type f = ext (tables (handle w) ! i) \<and> sized f) fs)"
      by (auto simp add: list_all2_conv_all_nth)
    moreover from assms(2) i l
    have "list_all (\<lambda>f. file_type f = ext (tables (handle w) ! i)) (files (tables (handle w) ! i))"
      by (simp add: tagsKept_def list_all_length)
    ultimately show ?thesis by (auto simp add: list_all_iff)
  qed
  have "ownTable d x" if "ownTable (handle w) x" for x
  proof (rule ownTable_mono [OF that])
    from onTables_epoch [OF assms(1)] show "epoch d = epoch (handle w)" .
    from l show "length (tables (handle w)) \<le> length (tables d)" by simp
    fix j assume "j < length (tables (handle w))"
    with r show "ext (tables d ! j) = ext (tables (handle w) ! j)"
      by (auto simp add: list_all2_conv_all_nth)
  qed
  with assms(2) have "list_all (ownTable d) (pending w)"
    by (auto simp add: tagsKept_def list_all_iff)
  with 1 show ?thesis by (simp add: tagsKept_def list_all_length)
qed

lemma tagsKept_fire:
  assumes f: "fire x err listening w = Inr w'" and k: "tagsKept w" and o: "ownTable (handle w) x"
  shows "tagsKept w'"
proof (cases x)
  case (FsOpen cb)
  show ?thesis
  proof (cases err)
    case (Some e)
    show ?thesis
    proof (cases cb)
      case UserOpen
      with f FsOpen Some k show ?thesis by (auto simp add: tagsKept_notify)
    next
      case (ReadOpen c)
      with f FsOpen Some have "callback_error c e listening w = Inr w'" by simp
      then show ?thesis using k by (rule tagsKept_callback_error)
    qed
  next
    case None
    define w1 where "w1 = w\<lparr> cursors := cursors w @ [0],
        handle := (handle w)\<lparr> fd := Some (length (cursors w)) \<rparr> \<rparr>"
    from k have k1: "tagsKept w1"
      by (rule tagsKept_handle) (simp_all add: w1_def)
    from f FsOpen None have "w' = (case cb of UserOpen \<Rightarrow> notify (OpenCb (Inr (length (cursors w)))) w1
        | ReadOpen c \<Rightarrow> read c w1)"
      by (auto simp add: Let_def w1_def split: opencb.splits)
    with k1 show ?thesis
      by (cases cb) (auto simp add: tagsKept_def notify_def intro: pending_read)
  qed
next
  case (FsReadHeader fdn cb)
  obtain bytesRead buf where b: "fs_read (disk w) HEADER_SIZE_SWGB 0 = (bytesRead, buf)"
    by (cases "fs_read (disk w) HEADER_SIZE_SWGB 0")
  show ?thesis
  proof (cases "onHeader (handle w) 0 err bytesRead buf")
    case (Failed e)
    with f FsReadHeader b have "callback_error cb e listening w = Inr w'" by simp
    then show ?thesis using k by (rule tagsKept_callback_error)
  next
    case (Thrown e)
    with f FsReadHeader b show ?thesis by simp
  next
    case (Continue r)
    obtain d len off where r: "r = (d, len, off)" by (cases r)
    with f FsReadHeader b Continue
    have w': "w' = issue (FsReadTableInfo fdn len off cb) (w\<lparr> handle := d \<rparr>)" by simp
    from Continue r have "tables d = tables (handle w)" "epoch d = epoch (handle w)"
      by (auto dest: onHeader_tables onHeader_epoch)
    then show ?thesis unfolding w'
      by (intro tagsKept_handle [OF k]) (simp_all add: issue_def)
  qed
next
  case (FsReadTableInfo fdn len fileOffset cb)
  obtain bytesRead buf where b: "fs_read (disk w) len fileOffset = (bytesRead, buf)"
    by (cases "fs_read (disk w) len fileOffset")
  show ?thesis
  proof (cases "onTableInfo (handle w) fileOffset err bytesRead buf")
    case (Failed e)
    with f FsReadTableInfo b have "callback_error cb e listening w = Inr w'" by simp
    then show ?thesis using k by (rule tagsKept_callback_error)
  next
    case (Thrown e)
    with f FsReadTableInfo b show ?thesis by simp
  next
    case (Continue r)
    obtain d len' off where r: "r = (d, len', off)" by (cases r)
    with f FsReadTableInfo b Continue
    have w': "w' = issue (FsReadTables fdn len' off cb) (w\<lparr> handle := d \<rparr>)" by simp
    from Continue r have "onTableInfo (handle w) fileOffset err bytesRead buf = Continue (d, len', off)"
      by simp
    then show ?thesis unfolding w' using k by (rule tagsKept_onTableInfo)
  qed
next
  case (FsReadTables fdn len fileOffset cb)
  obtain bytesRead buf where b: "fs_read (disk w) len fileOffset = (bytesRead, buf)"
    by (cases "fs_read (disk w) len fileOffset")
  show ?thesis
  proof (cases "onTables (handle w) err bytesRead buf")
    case (Failed e)
    with f FsReadTables b have "callback_error cb e listening w = Inr w'" by simp
    then show ?thesis using k by (rule tagsKept_callback_error)
  next
    case (Thrown e)
    with f FsReadTables b show ?thesis by simp
  next
    case (Continue d)
    with f FsReadTables b have c: "callback_ok cb listening (w\<lparr> handle := d \<rparr>) = Inr w'" by simp
    from tagsKept_onTables [OF Continue k] have "tagsKept (w\<lparr> handle := d \<rparr>)" .
    with c show ?thesis by (rule tagsKept_callback_ok)
  qed
next
  case (FsReadFile fdn len position g)
  with f have "w' = onFileRead fdn len position g err w" by simp
  moreover have "pending (onFileRead fdn len position g err w) = pending w"
    by (simp add: onFileRead_def Let_def notify_def split: option.splits prod.splits)
  ultimately show ?thesis using k by (simp add: tagsKept_def)
next
  case (SetTimeout g table b)
  obtain ep i where t: "table = TableRef ep i" by (cases table)
  obtain w1 res where r: "run_onbuffer g (TableRef ep i) None b w = (w1, res)"
    by (cases "run_onbuffer g (TableRef ep i) None b w")
  from k o SetTimeout t have "tagsKept w1"
    by (intro tagsKept_run_onbuffer [OF r]) (simp_all add: tagsKept_def)
  moreover from f SetTimeout t r have "w' = notify (PutFileCb res) w1" by simp
  ultimately show ?thesis by (simp add: tagsKept_def notify_def)
next
  case (Concat g table chunks)
  obtain ep i where t: "table = TableRef ep i" by (cases table)
  obtain w1 res where r: "run_onbuffer g (TableRef ep i) err (concat chunks) w = (w1, res)"
    by (cases "run_onbuffer g (TableRef ep i) err (concat chunks) w")
  from k o Concat t have "tagsKept w1"
    by (intro tagsKept_run_onbuffer [OF r]) (simp_all add: tagsKept_def)
  moreover from f Concat t r have "w' = notify (PutFileCb res) w1" by simp
  ultimately show ?thesis by (simp add: tagsKept_def notify_def)
next
  case (WriteStream s g table dat)
  obtain ep i where t: "table = TableRef ep i" by (cases table)
  obtain w1 res where r: "run_onbuffer g (TableRef ep i) None (concat dat) w = (w1, res)"
    by (cases "run_onbuffer g (TableRef ep i) None (concat dat) w")
  from k o WriteStream t have "tagsKept w1"
    by (intro tagsKept_run_onbuffer [OF r]) (simp_all add: tagsKept_def)
  moreover from f WriteStream t r have "onfinish s res listening w1 = Inr w'" by simp
  ultimately show ?thesis by (rule tagsKept_onfinish [rotated])
next
  case (Pump s src)
  with f have "w' = pumped s src err w" by simp
  moreover have "pending (pumped s src err w) = pending w"
    by (simp add: pumped_def Let_def notify_def split: option.splits)
  ultimately show ?thesis using k by (simp add: tagsKept_def)
qed

lemma tagsKept_complete:
  assumes "complete k err listening w = Inr w'" "tagsKept w"
  shows "tagsKept w'"
proof (cases "k < length (pending w)")
  case True
  define w0 where "w0 = w\<lparr> pending := take k (pending w) @ drop (Suc k) (pending w) \<rparr>"
  from assms(1) True have f: "fire (pending w ! k) err listening w0 = Inr w'"
    by (simp add: complete_def w0_def)
  from assms(2) have "tagsKept w0"
    by (simp add: tagsKept_def w0_def list_all_take_drop)
  moreover from assms(2) True have "ownTable (handle w0) (pending w ! k)"
    by (simp add: tagsKept_def w0_def list_all_length)
  ultimately show ?thesis by (rule tagsKept_fire [OF f])
next
  case False
  with assms show ?thesis by (simp add: complete_def)
qed

lemma tagsKept_getTable:
  assumes k: "tagsKept w" and g: "getTable (handle w) tag = (d, i)"
  shows "list_all (\<lambda>t. list_all (\<lambda>f. file_type f = ext t) (files t)) (tables d)
     \<and> list_all (ownTable d) (pending w)"
proof -
  from getTable_shape [OF g] k
  have "list_all (\<lambda>t. list_all (\<lambda>f. file_type f = ext t) (files t)) (tables d)"
    by (auto simp add: tagsKept_def)
  moreover from k have "list_all (ownTable d) (pending w)"
    by (auto simp add: tagsKept_def list_all_iff intro: ownTable_getTable [OF g])
  ultimately show ?thesis by simp
qed

lemma ownTable_new:
  assumes g: "getTable d0 tag = (d, i)"
    and h: "tables d0 = [] \<or> (\<exists>t \<in> set (tables d0). ext t = tag)"
  shows "epoch d = epoch d \<and> i < length (tables d) \<and> ext (tables d ! i) = file_type (newFile tag fileId)"
  using getTable_shape [OF g] getTable_tag [OF g h] by (simp add: newFile_def)

lemma tagsKept_putFile:
  assumes k: "tagsKept w"
    and h: "tables (handle w) = [] \<or> (\<exists>t \<in> set (tables (handle w)). ext t = tag)"
  shows "tagsKept (fst (putFile tag fileId dat w))"
proof -
  obtain d i where g: "getTable (handle w) tag = (d, i)" by (cases "getTable (handle w) tag")
  note a = tagsKept_getTable [OF k g] and n = ownTable_new [OF g h, of fileId]
  from a n g show ?thesis
    by (cases dat) (simp_all add: putFile_def Let_def tagsKept_def issue_def)
qed

lemma tagsKept_createWriteStream:
  assumes k: "tagsKept w"
    and h: "tables (handle w) = [] \<or> (\<exists>t \<in> set (tables (handle w)). ext t = tag)"
  shows "tagsKept (createWriteStream tag fileId w)"
proof -
  obtain d i where g: "getTable (handle w) tag = (d, i)" by (cases "getTable (handle w) tag")
  note a = tagsKept_getTable [OF k g] and n = ownTable_new [OF g h, of fileId]
  from a n g show ?thesis
    by (simp add: createWriteStream_def Let_def tagsKept_def issue_def)
qed

lemma ownTable_push_chunk: "ownTable d (push_chunk s chunk x) = ownTable d x"
  by (induction d x rule: ownTable.induct) simp_all

lemma tagsKept_call:
  assumes k: "tagsKept w"
    and p: "\<And>tag fileId dat. r \<noteq> CallPutFile tag fileId dat"
    and c: "\<And>tag fileId. r \<noteq> CallCreateWriteStream tag fileId"
  shows "tagsKept (call r w)"
proof (cases r)
  case CallOpen
  with k show ?thesis by (simp add: tagsKept_def open_def issue_def)
next
  case CallRead
  with k show ?thesis by (simp add: tagsKept_def pending_read)
next
  case (CallReadFile fileId)
  show ?thesis
  proof (cases "readFile fileId w")
    case (Inl e)
    with CallReadFile k show ?thesis by simp
  next
    case (Inr w1)
    from k handle_readFile [OF Inr] pending_readFile [OF Inr] have "tagsKept w1"
      by (simp add: tagsKept_def)
    with CallReadFile Inr show ?thesis by simp
  qed
next
  case (CallCreateReadStream fileId)
  show ?thesis
  proof (cases "createReadStream fileId w")
    case (Inl e)
    with CallCreateReadStream k show ?thesis by simp
  next
    case (Inr w1)
    from k handle_createReadStream [OF Inr] pending_createReadStream [OF Inr] have "tagsKept w1"
      by (simp add: tagsKept_def)
    with CallCreateReadStream Inr show ?thesis by simp
  qed
next
  case (CallPutFile tag fileId dat)
  with p [of tag fileId dat] show ?thesis by simp
next
  case (CallCreateWriteStream tag fileId)
  with c [of tag fileId] show ?thesis by simp
next
  case (CallWrite s chunk)
  with k show ?thesis
    by (simp add: tagsKept_def stream_write_def list_all_iff ownTable_push_chunk)
next
  case (CallGetFile fileId)
  with k show ?thesis by (simp add: tagsKept_notify)
next
  case CallGetFiles
  with k show ?thesis by (simp add: tagsKept_notify)
qed

lemma tagsKept_start: "tagsKept (newWorld name contents)"
  by (simp add: tagsKept_def newWorld_def DRS_def)

lemma countsAgree_tables: "tables d' = tables d \<Longrightarrow> countsAgree d' = countsAgree d"
  by (simp add: countsAgree_def)

lemma countsAgree_call: "countsAgree (handle w) \<Longrightarrow> countsAgree (handle (call r w))"
proof (cases r)
  case (CallPutFile tag fileId dat)
  assume "countsAgree (handle w)"
  then have "countsAgree (fst (getTable (handle w) tag))" by (rule countsAgree_getTable)
  with CallPutFile show ?thesis
    by (cases dat) (auto simp add: putFile_def Let_def split: prod.splits)
next
  case (CallCreateWriteStream tag fileId)
  assume "countsAgree (handle w)"
  then have "countsAgree (fst (getTable (handle w) tag))" by (rule countsAgree_getTable)
  with CallCreateWriteStream show ?thesis
    by (auto simp add: createWriteStream_def Let_def split: prod.splits)
qed (auto dest: handle_readFile handle_createReadStream split: sum.splits)

lemma countsAgree_fire:
  assumes "fire x err listening w = Inr w'" "countsAgree (handle w)" "\<not> isTableStage x"
  shows "countsAgree (handle w')"
proof (cases x)
  case (FsOpen cb)
  with assms show ?thesis
    by (cases cb; cases err)
       (auto simp add: Let_def countsAgree_def dest!: handle_callback_error)
next
  case (FsReadHeader fdn cb)
  with assms show ?thesis
    by (auto simp add: Let_def countsAgree_def
        dest!: handle_callback_error onHeader_tables split: prod.splits outcome.splits)
next
  case (FsReadTableInfo fdn len fileOffset cb)
  with assms show ?thesis by simp
next
  case (FsReadTables fdn len fileOffset cb)
  with assms show ?thesis by simp
next
  case (FsReadFile fdn len position f)
  with assms show ?thesis by auto
next
  case (SetTimeout f table b)
  with assms show ?thesis
    by (auto simp add: Let_def dest: countsAgree_run_onbuffer split: prod.splits)
next
  case (Concat f table chunks)
  with assms show ?thesis
    by (auto simp add: Let_def dest: countsAgree_run_onbuffer split: prod.splits)
next
  case (WriteStream s f table dat)
  with assms show ?thesis
    by (auto simp add: Let_def dest: countsAgree_run_onbuffer dest!: handle_onfinish split: prod.splits)
next
  case (Pump s src)
  with assms show ?thesis by auto
qed

lemma countsAgree_complete:
  assumes "complete k err listening w = Inr w'" "countsAgree (handle w)"
    "\<not> isTableStage (pending w ! k)"
  shows "countsAgree (handle w')"
proof (cases "k < length (pending w)")
  case True
  with assms(1) have "fire (pending w ! k) err listening
      (w\<lparr> pending := take k (pending w) @ drop (Suc k) (pending w) \<rparr>) = Inr w'"
    by (simp add: complete_def)
  from countsAgree_fire [OF this] assms(2,3) show ?thesis by simp
next
  case False
  with assms show ?thesis by (simp add: complete_def)
qed

lemma readInt32LE_Inr: "readInt32LE buf offset = Inr n \<Longrightarrow> offset + 4 \<le> length buf"
  by (auto simp add: readInt32LE_def readUInt32LE_def andThen_Inr split: if_splits)

lemma onTables_files_offset:
  "onTables_files buf offset tag l = Inr (fs, offset') \<Longrightarrow>
   offset' = offset + 12 * l \<and> (0 < l \<longrightarrow> offset' \<le> length buf)"
proof (induction l arbitrary: offset fs offset')
  case 0
  then show ?case by simp
next
  case (Suc l)
  from Suc.prems obtain sz fs' where
    sz: "readInt32LE buf (offset + 8) = Inr sz"
    and rest: "onTables_files buf (offset + 12) tag l = Inr (fs', offset')"
    by (auto simp add: andThen_Inr)
  from readInt32LE_Inr [OF sz] have "offset + 12 \<le> length buf" by simp
  with Suc.IH [OF rest] show ?case by (cases l) auto
qed

lemma onTables_forEach_fits:
  "onTables_forEach buf offset ts = Inr ts' \<Longrightarrow>
   0 < sum_list (map (\<lambda>t. nat (numFiles t)) ts) \<Longrightarrow>
   offset + 12 * sum_list (map (\<lambda>t. nat (numFiles t)) ts) \<le> length buf"
proof (induction ts arbitrary: offset ts')
  case Nil
  then show ?case by simp
next
  case (Cons t ts)
  define l where "l = nat (numFiles t)"
  define S where "S = sum_list (map (\<lambda>t. nat (numFiles t)) ts)"
  have tot: "sum_list (map (\<lambda>t. nat (numFiles t)) (t # ts)) = l + S"
    by (simp add: l_def S_def)
  from Cons.prems(1) obtain fs offset' rest' where
    fs: "onTables_files buf offset (ext t) l = Inr (fs, offset')"
    and rest: "onTables_forEach buf offset' ts = Inr rest'"
    by (auto simp add: andThen_Inr l_def)
  from onTables_files_offset [OF fs]
  have o: "offset' = offset + 12 * l" and o': "0 < l \<Longrightarrow> offset' \<le> length buf" by simp_all
  from Cons.prems(2) have pos: "0 < l + S" by (simp only: tot)
  have "offset + 12 * (l + S) \<le> length buf"
  proof (cases "0 < S")
    case True
    then have "offset' + 12 * S \<le> length buf"
      unfolding S_def by (rule Cons.IH [OF rest])
    with o show ?thesis by arith
  next
    case False
    with pos have "0 < l" and "S = 0" by arith+
    with o o' show ?thesis by simp
  qed
  then show ?case by (simp only: tot)
qed

lemma totalFiles_sum:
  "foldl (\<lambda>total table. total + numFiles table) a ts = a + sum_list (map numFiles ts)"
  by (induction ts arbitrary: a) simp_all

lemma sum_nat_numFiles:
  "sum_list (map numFiles ts) \<le> int (sum_list (map (\<lambda>t. nat (numFiles t)) ts))"
  by (induction ts) auto

lemma counts_not_negative:
  "int (sum_list (map (\<lambda>t. nat (numFiles t)) ts)) \<le> sum_list (map numFiles ts) \<Longrightarrow>
   list_all (\<lambda>t. 0 \<le> numFiles t) ts"
proof (induction ts)
  case Nil
  show ?case by simp
next
  case (Cons t ts)
  define S where "S = int (sum_list (map (\<lambda>t. nat (numFiles t)) ts))"
  define T where "T = sum_list (map numFiles ts)"
  from sum_nat_numFiles [of ts] have 1: "T \<le> S" by (simp add: S_def T_def)
  from Cons.prems have 2: "int (nat (numFiles t)) + S \<le> numFiles t + T"
    by (simp add: S_def T_def)
  from 1 2 have "0 \<le> numFiles t" and "S \<le> T" by arith+
  with Cons.IH show ?case by (simp add: S_def T_def)
qed

lemma onTableInfo_total:
  assumes "onTableInfo d fileOffset None n buf = Continue (d1, len, off)"
  shows "list_all (\<lambda>t. files t = []) (tables d1)
     \<and> 0 \<le> sum_list (map numFiles (tables d1))
     \<and> int len = 12 * sum_list (map numFiles (tables d1))"
proof -
  from assms obtain ts b where
    d1: "tables d1 = ts" and
    b: "Buffer_alloc (int FILE_META_SIZE * foldl (\<lambda>total table. total + numFiles table) 0 ts) = Inr b"
    and len: "len = length b"
    by (auto simp add: onTableInfo_def Let_def split: option.splits sum.splits)
  from b have "0 \<le> sum_list (map numFiles ts) \<and> int (length b) = 12 * sum_list (map numFiles ts)"
    by (auto simp add: Buffer_alloc_def totalFiles_sum FILE_META_SIZE_def split: if_splits)
  with onTableInfo_Continue [OF assms] d1 len show ?thesis by simp
qed

lemma onTables_fresh:
  assumes e: "list_all (\<lambda>t. files t = []) (tables d)"
    and t0: "0 \<le> sum_list (map numFiles (tables d))"
    and len: "int (length buf) = 12 * sum_list (map numFiles (tables d))"
    and t: "onTables d None n buf = Continue d'"
  shows "list_all tableInvariant (tables d')"
proof -
  let ?S = "sum_list (map (\<lambda>t. nat (numFiles t)) (tables d))"
  from t have fe: "onTables_forEach buf 0 (tables d) = Inr (tables d')"
    by (auto simp add: onTables_def split: sum.splits)
  have "int ?S \<le> sum_list (map numFiles (tables d))"
  proof (cases "0 < ?S")
    case True
    from onTables_forEach_fits [OF fe True] have "12 * int ?S \<le> int (length buf)" by simp
    with len show ?thesis by simp
  next
    case False
    then have "?S = 0" by (simp only: not_gr_zero)
    then have "int ?S = 0" by (simp only: of_nat_0)
    with t0 show ?thesis by (simp only:)
  qed
  then have nn: "list_all (\<lambda>t. 0 \<le> numFiles t) (tables d)" by (rule counts_not_negative)
  note r = onTables_Continue [OF t]
  from r have l: "length (tables d) = length (tables d')" by (rule list_all2_lengthD)
  have "tableInvariant (tables d' ! i)" if i: "i < length (tables d')" for i
  proof -
    from r i l have "ext (tables d' ! i) = ext (tables d ! i) \<and> numFiles (tables d' ! i) = numFiles (tables d ! i) \<and>
       (\<exists>fs. files (tables d' ! i) = files (tables d ! i) @ fs \<and> length fs = nat (numFiles (tables d ! i))
          \<and> list_all (\<lambda>f. file_type f = ext (tables d ! i) \<and> sized f) fs)"
      by (simp add: list_all2_conv_all_nth)
    moreover from e i l have "files (tables d ! i) = []" by (simp add: list_all_length)
    moreover from nn i l have "0 \<le> numFiles (tables d ! i)" by (simp add: list_all_length)
    ultimately show ?thesis by (auto simp add: tableInvariant_def list_all_iff)
  qed
  then show ?thesis by (simp add: list_all_length)
qed

lemma fs_read_length: "length (snd (fs_read contents len position)) = len"
  by (simp add: fs_read_def Let_def)

lemma readDirectory_establishes:
  assumes "readDirectory contents d = Inr d'"
  shows "list_all tableInvariant (tables d')"
proof -
  from readDirectory_stages [OF assms] obtain d1 len1 off1 d2 len2 off2 where
    ti: "onTableInfo d1 off1 None (fst (fs_read contents len1 off1))
       (snd (fs_read contents len1 off1)) = Continue (d2, len2, off2)"
    and t: "onTables d2 None (fst (fs_read contents len2 off2))
       (snd (fs_read contents len2 off2)) = Continue d'" by blast
  from onTableInfo_total [OF ti] have e: "list_all (\<lambda>t. files t = []) (tables d2)"
    and t0: "0 \<le> sum_list (map numFiles (tables d2))"
    and len: "int len2 = 12 * sum_list (map numFiles (tables d2))" by simp_all
  from len have "int (length (snd (fs_read contents len2 off2))) = 12 * sum_list (map numFiles (tables d2))"
    by (simp only: fs_read_length)
  from onTables_fresh [OF e t0 this t] show ?thesis .
qed

lemma tableInfo_turn:
  assumes k: "k < length (pending w)" and x: "pending w ! k = FsReadTableInfo fdn len off cb"
    and c: "complete k None listening w = Inr w1"
  shows "\<exists>len' off'. last (pending w1) = FsReadTables fdn len' off' cb
     \<and> list_all (\<lambda>t. files t = []) (tables (handle w1))
     \<and> 0 \<le> sum_list (map numFiles (tables (handle w1)))
     \<and> int len' = 12 * sum_list (map numFiles (tables (handle w1)))"
proof -
  define w0 where "w0 = w\<lparr> pending := take k (pending w) @ drop (Suc k) (pending w) \<rparr>"
  obtain bytesRead buf where b: "fs_read (disk w0) len off = (bytesRead, buf)"
    by (cases "fs_read (disk w0) len off")
  from c k x have f: "fire (FsReadTableInfo fdn len off cb) None listening w0 = Inr w1"
    by (simp add: complete_def w0_def)
  show ?thesis
  proof (cases "onTableInfo (handle w0) off None bytesRead buf")
    case (Failed e)
    then show ?thesis by (simp add: onTableInfo_def Let_def split: option.splits sum.splits)
  next
    case (Thrown e)
    with f b show ?thesis by simp
  next
    case (Continue r)
    obtain d len' off' where r: "r = (d, len', off')" by (cases r)
    with f b Continue have w1: "w1 = issue (FsReadTables fdn len' off' cb) (w0\<lparr> handle := d \<rparr>)"
      by simp
    from Continue r have "onTableInfo (handle w0) off None bytesRead buf = Continue (d, len', off')"
      by simp
    from onTableInfo_total [OF this] show ?thesis by (simp add: w1 issue_def)
  qed
qed

lemma tables_turn:
  assumes j: "j < length (pending v)" and y: "pending v ! j = FsReadTables fdn len off cb"
    and e: "list_all (\<lambda>t. files t = []) (tables (handle v))"
    and t0: "0 \<le> sum_list (map numFiles (tables (handle v)))"
    and len: "int len = 12 * sum_list (map numFiles (tables (handle v)))"
    and c: "complete j None listening v = Inr w2"
  shows "list_all tableInvariant (tables (handle w2))"
proof -
  define v0 where "v0 = v\<lparr> pending := take j (pending v) @ drop (Suc j) (pending v) \<rparr>"
  define buf where "buf = snd (fs_read (disk v0) len off)"
  define n where "n = fst (fs_read (disk v0) len off)"
  have b: "fs_read (disk v0) len off = (n, buf)" by (simp add: n_def buf_def)
  have lb: "int (length buf) = 12 * sum_list (map numFiles (tables (handle v0)))"
    using len by (simp add: buf_def fs_read_length v0_def)
  from c j y have f: "fire (FsReadTables fdn len off cb) None listening v0 = Inr w2"
    by (simp add: complete_def v0_def)
  show ?thesis
  proof (cases "onTables (handle v0) None n buf")
    case (Failed e)
    then show ?thesis by (simp add: onTables_def split: sum.splits)
  next
    case (Thrown e)
    with f b show ?thesis by simp
  next
    case (Continue d)
    with f b have "callback_ok cb listening (v0\<lparr> handle := d \<rparr>) = Inr w2" by simp
    from handle_callback_ok [OF this] have h: "handle w2 = d" by simp
    from e t0 have e': "list_all (\<lambda>t. files t = []) (tables (handle v0))"
      and t0': "0 \<le> sum_list (map numFiles (tables (handle v0)))" by (simp_all add: v0_def)
    from onTables_fresh [OF e' t0' lb Continue] h show ?thesis by simp
  qed
qed

lemma directory_read_turns:
  assumes k: "k < length (pending w)" and x: "pending w ! k = FsReadTableInfo fdn len off cb"
    and c1: "complete k None listening w = Inr w1"
    and j: "j < length (pending v)" and y: "pending v ! j = last (pending w1)"
    and tv: "tables (handle v) = tables (handle w1)"
    and c2: "complete j None listening' v = Inr w2"
  shows "list_all tableInvariant (tables (handle w2))"
proof -
  from tableInfo_turn [OF k x c1] obtain len' off' where
    l: "last (pending w1) = FsReadTables fdn len' off' cb"
    and e: "list_all (\<lambda>t. files t = []) (tables (handle w1))"
    and t0: "0 \<le> sum_list (map numFiles (tables (handle w1)))"
    and len: "int len' = 12 * sum_list (map numFiles (tables (handle w1)))" by blast
  from y l have y': "pending v ! j = FsReadTables fdn len' off' cb" by simp
  from e t0 len tv have "list_all (\<lambda>t. files t = []) (tables (handle v))"
    "0 \<le> sum_list (map numFiles (tables (handle v)))"
    "int len' = 12 * sum_list (map numFiles (tables (handle v)))" by simp_all
  from tables_turn [OF j y' this c2] show ?thesis .
qed

lemma failed_table_stage:
  assumes k: "k < length (pending w)" and s: "isTableStage (pending w ! k)"
    and c: "complete k (Some e) listening w = Inr w'"
  shows "tables (handle w') = tables (handle w)"
proof -
  define w0 where "w0 = w\<lparr> pending := take k (pending w) @ drop (Suc k) (pending w) \<rparr>"
  from c k have f: "fire (pending w ! k) (Some e) listening w0 = Inr w'"
    by (simp add: complete_def w0_def)
  have "handle w' = handle w0"
  proof (cases "pending w ! k")
    case (FsReadTableInfo fdn len fileOffset cb)
    with f have "callback_error cb e listening w0 = Inr w'"
      by (simp add: onTableInfo_def split: prod.splits)
    then show ?thesis by (rule handle_callback_error)
  next
    case (FsReadTables fdn len fileOffset cb)
    with f have "callback_error cb e listening w0 = Inr w'"
      by (simp add: onTables_def split: prod.splits)
    then show ?thesis by (rule handle_callback_error)
  qed (insert s, simp_all)
  then show ?thesis by (simp add: w0_def)
qed

lemma tableInvariant_split:
  "list_all tableInvariant (tables (handle w)) =
     (countsAgree (handle w)
      \<and> list_all (\<lambda>t. list_all (\<lambda>f. file_type f = ext t) (files t)) (tables (handle w)))"
  by (auto simp add: tableInvariant_def countsAgree_def list_all_iff)

text \<open>
  C2 (as amended). The invariant of a table is that \<^verbatim>\<open>numFiles\<close> is the length of \<^verbatim>\<open>files\<close>
  and that every entry carries the table's tag; it is the conjunction of the two parts
  below, taken over all tables.

  The counts (\<open>countsAgree\<close>).
  \<^item> Every call keeps them, \<^verbatim>\<open>putFile\<close> and \<^verbatim>\<open>createWriteStream\<close> among them (\<open>getTable\<close> adds
    at most an empty table).
  \<^item> Every turn of the event loop keeps them, except the completions of the two stages
    of a directory read that write \<^verbatim>\<open>drs.tables\<close>. The completion of \<^verbatim>\<open>putFile\<close> and the end
    of a write stream are among the turns that keep them (\<open>onbuffer\<close> sets the count to the
    new length).
  \<^item> The completion of one of these two stages after a read that failed leaves the tables
    as they are.
  \<^item> The completion of \<open>onTableInfo\<close>, after a read that did not fail, leaves tables without
    entries. The completion of \<open>onTables\<close>, after a read that did not fail, then leaves
    every table with the whole invariant, provided the table list it finds is the one
    \<open>onTableInfo\<close> left. That is always so when the three stages of a read run with nothing
    in between (\<open>readDirectory\<close>). No condition on the stored counts is needed: a negative
    count makes the read throw.

  The tags (\<open>tagsKept\<close>: every entry of every table carries the tag of its table, and every
  \<^verbatim>\<open>putFile\<close> or write stream in flight holds a table of the type of its entry).
  \<^item> They hold on a fresh handle.
  \<^item> Every turn of the event loop keeps them, the stages of a directory read included.
  \<^item> Every call keeps them, where a call of \<^verbatim>\<open>putFile\<close> or \<^verbatim>\<open>createWriteStream\<close> has to
    name a type for which a table exists, or to find the table list empty. (Otherwise
    \<open>getTable\<close> returns the last table, of another type: see C1.)
\<close>

theorem table_invariant_steps:
  "(list_all tableInvariant (tables (handle w))
      = (countsAgree (handle w)
         \<and> list_all (\<lambda>t. list_all (\<lambda>f. file_type f = ext t) (files t)) (tables (handle w))))
   \<and> (countsAgree (handle w) \<longrightarrow>
        countsAgree (handle (call r w))
        \<and> countsAgree (handle (fst (putFile tag fileId dat w)))
        \<and> countsAgree (handle (createWriteStream tag fileId w)))
   \<and> (countsAgree (handle w) \<and> \<not> isTableStage (pending w ! k)
        \<and> complete k err listening w = Inr w' \<longrightarrow> countsAgree (handle w'))
   \<and> (k < length (pending w) \<and> isTableStage (pending w ! k)
        \<and> complete k (Some e) listening w = Inr w' \<longrightarrow> tables (handle w') = tables (handle w))
   \<and> (k < length (pending w) \<and> pending w ! k = FsReadTableInfo fdn len off cb
        \<and> complete k None listening w = Inr w1 \<longrightarrow>
        list_all (\<lambda>t. files t = []) (tables (handle w1)))
   \<and> (k < length (pending w) \<and> pending w ! k = FsReadTableInfo fdn len off cb
        \<and> complete k None listening w = Inr w1
        \<and> j < length (pending v) \<and> pending v ! j = last (pending w1)
        \<and> tables (handle v) = tables (handle w1)
        \<and> complete j None listening' v = Inr w2 \<longrightarrow>
        list_all tableInvariant (tables (handle w2)))
   \<and> (readDirectory contents da = Inr db \<longrightarrow> list_all tableInvariant (tables db))
   \<and> tagsKept (newWorld name contents)
   \<and> (tagsKept w \<and> complete k err listening w = Inr w' \<longrightarrow> tagsKept w')
   \<and> (tagsKept w \<and> (tables (handle w) = [] \<or> (\<exists>t \<in> set (tables (handle w)). ext t = tag)) \<longrightarrow>
        tagsKept (call (CallPutFile tag fileId dat) w)
        \<and> tagsKept (call (CallCreateWriteStream tag fileId) w))
   \<and> (tagsKept w \<and> (\<forall>tag fileId dat. r \<noteq> CallPutFile tag fileId dat)
        \<and> (\<forall>tag fileId. r \<noteq> CallCreateWriteStream tag fileId) \<longrightarrow> tagsKept (call r w))
   \<and> (tagsKept w \<and> countsAgree (handle w) \<longrightarrow> list_all tableInvariant (tables (handle w)))"
proof (intro conjI impI)
  show "list_all tableInvariant (tables (handle w))
      = (countsAgree (handle w)
         \<and> list_all (\<lambda>t. list_all (\<lambda>f. file_type f = ext t) (files t)) (tables (handle w)))"
    by (rule tableInvariant_split)
next
  assume a: "countsAgree (handle w)"
  then show "countsAgree (handle (call r w))" by (rule countsAgree_call)
  from countsAgree_call [OF a, of "CallPutFile tag fileId dat"]
  show "countsAgree (handle (fst (putFile tag fileId dat w)))" by simp
  from countsAgree_call [OF a, of "CallCreateWriteStream tag fileId"]
  show "countsAgree (handle (createWriteStream tag fileId w))" by simp
next
  assume "countsAgree (handle w) \<and> \<not> isTableStage (pending w ! k)
        \<and> complete k err listening w = Inr w'"
  then show "countsAgree (handle w')" by (auto intro: countsAgree_complete)
next
  assume "k < length (pending w) \<and> isTableStage (pending w ! k)
        \<and> complete k (Some e) listening w = Inr w'"
  then have "k < length (pending w)" "isTableStage (pending w ! k)"
    "complete k (Some e) listening w = Inr w'" by simp_all
  then show "tables (handle w') = tables (handle w)" by (rule failed_table_stage)
next
  assume "k < length (pending w) \<and> pending w ! k = FsReadTableInfo fdn len off cb
        \<and> complete k None listening w = Inr w1"
  then have "k < length (pending w)" "pending w ! k = FsReadTableInfo fdn len off cb"
    "complete k None listening w = Inr w1" by simp_all
  from tableInfo_turn [OF this] show "list_all (\<lambda>t. files t = []) (tables (handle w1))" by blast
next
  assume "k < length (pending w) \<and> pending w ! k = FsReadTableInfo fdn len off cb
        \<and> complete k None listening w = Inr w1
        \<and> j < length (pending v) \<and> pending v ! j = last (pending w1)
        \<and> tables (handle v) = tables (handle w1)
        \<and> complete j None listening' v = Inr w2"
  then have "k < length (pending w)" "pending w ! k = FsReadTableInfo fdn len off cb"
    "complete k None listening w = Inr w1" "j < length (pending v)"
    "pending v ! j = last (pending w1)" "tables (handle v) = tables (handle w1)"
    "complete j None listening' v = Inr w2" by simp_all
  then show "list_all tableInvariant (tables (handle w2))" by (rule directory_read_turns)
next
  assume "readDirectory contents da = Inr db"
  then show "list_all tableInvariant (tables db)" by (rule readDirectory_establishes)
next
  show "tagsKept (newWorld name contents)" by (rule tagsKept_start)
next
  assume "tagsKept w \<and> complete k err listening w = Inr w'"
  then have "complete k err listening w = Inr w'" "tagsKept w" by simp_all
  then show "tagsKept w'" by (rule tagsKept_complete)
next
  assume "tagsKept w \<and> (tables (handle w) = [] \<or> (\<exists>t \<in> set (tables (handle w)). ext t = tag))"
  then have a: "tagsKept w" "tables (handle w) = [] \<or> (\<exists>t \<in> set (tables (handle w)). ext t = tag)"
    by simp_all
  from tagsKept_putFile [OF a] show "tagsKept (call (CallPutFile tag fileId dat) w)" by simp
  from tagsKept_createWriteStream [OF a]
  show "tagsKept (call (CallCreateWriteStream tag fileId) w)" by simp
next
  assume "tagsKept w \<and> (\<forall>tag fileId dat. r \<noteq> CallPutFile tag fileId dat)
        \<and> (\<forall>tag fileId. r \<noteq> CallCreateWriteStream tag fileId)"
  then show "tagsKept (call r w)" by (auto intro: tagsKept_call)
next
  assume "tagsKept w \<and> countsAgree (handle w)"
  then show "list_all tableInvariant (tables (handle w))"
    by (simp add: tableInvariant_split tagsKept_def)
qed

text \<open>
  A witness, on the example archive: \<^verbatim>\<open>readFile(9)\<close> loads the directory (the open, the
  header, \<open>onTableInfo\<close> and \<open>onTables\<close> one after the other), then
  \<^verbatim>\<open>putFile('bina', 5, hello)\<close> is called and completes. Each step is an instance of the
  theorem, and the tables satisfy the invariant at the end. So do the tables after
  \<open>readDirectory\<close>.
\<close>

theorem table_invariant_steps_witness:
  "run [Call (CallReadFile 9), Turn 0 None False, Turn 0 None False, Turn 0 None False,
        Turn 0 None False, Call (CallPutFile ''bina'' 5 (IsBuffer ''hello'')), Turn 1 None False]
       (newWorld ''f'' exampleArchive)
   = Inr (projr (run [Call (CallReadFile 9), Turn 0 None False, Turn 0 None False, Turn 0 None False,
        Turn 0 None False, Call (CallPutFile ''bina'' 5 (IsBuffer ''hello'')), Turn 1 None False]
       (newWorld ''f'' exampleArchive)))
   \<and> tagsKept (projr (run [Call (CallReadFile 9), Turn 0 None False, Turn 0 None False, Turn 0 None False,
        Turn 0 None False, Call (CallPutFile ''bina'' 5 (IsBuffer ''hello'')), Turn 1 None False]
       (newWorld ''f'' exampleArchive)))
   \<and> list_all tableInvariant (tables (handle (projr (run [Call (CallReadFile 9), Turn 0 None False,
        Turn 0 None False, Turn 0 None False,
        Turn 0 None False, Call (CallPutFile ''bina'' 5 (IsBuffer ''hello'')), Turn 1 None False]
       (newWorld ''f'' exampleArchive)))))
   \<and> list_all tableInvariant (tables (projr (readDirectory exampleArchive (DRS ''f''))))
   \<and> readDirectory exampleArchive (DRS ''f'') = Inr (projr (readDirectory exampleArchive (DRS ''f'')))"
proof -
  define W0 where "W0 = newWorld ''f'' exampleArchive"
  define W1 where "W1 = call (CallReadFile 9) W0"
  define W2 where "W2 = projr (complete 0 None False W1)"
  define W3 where "W3 = projr (complete 0 None False W2)"
  define W4 where "W4 = projr (complete 0 None False W3)"
  define W5 where "W5 = projr (complete 0 None False W4)"
  define W6 where "W6 = call (CallPutFile ''bina'' 5 (IsBuffer ''hello'')) W5"
  define W7 where "W7 = projr (complete 1 None False W6)"
  note defs = W7_def W6_def W5_def W4_def W3_def W2_def W1_def W0_def
  have c2: "complete 0 None False W1 = Inr W2" unfolding defs by code_simp
  have c3: "complete 0 None False W2 = Inr W3" unfolding defs by code_simp
  have c4: "complete 0 None False W3 = Inr W4" unfolding defs by code_simp
  have c5: "complete 0 None False W4 = Inr W5" unfolding defs by code_simp
  have c7: "complete 1 None False W6 = Inr W7" unfolding defs by code_simp
  have p3: "0 < length (pending W3) \<and> pending W3 ! 0 = FsReadTableInfo 0 12 64 (ReadFileRetry 9)"
    unfolding defs by code_simp
  have p4: "0 < length (pending W4) \<and> pending W4 ! 0 = last (pending W4)"
    unfolding defs by code_simp
  have p6: "\<not> isTableStage (pending W6 ! 1)" unfolding defs by code_simp
  have h5: "tables (handle W5) = [] \<or> (\<exists>t \<in> set (tables (handle W5)). ext t = ''bina'')"
    unfolding defs by code_simp
  have r: "run [Call (CallReadFile 9), Turn 0 None False, Turn 0 None False, Turn 0 None False,
        Turn 0 None False, Call (CallPutFile ''bina'' 5 (IsBuffer ''hello'')), Turn 1 None False]
       (newWorld ''f'' exampleArchive) = Inr W7"
    unfolding defs by code_simp
  have d: "readDirectory exampleArchive (DRS ''f'') = Inr (projr (readDirectory exampleArchive (DRS ''f'')))"
    by code_simp
  note T = table_invariant_steps
  from T [where name = "''f''" and contents = exampleArchive,
      THEN conjunct2, THEN conjunct2, THEN conjunct2, THEN conjunct2, THEN conjunct2,
      THEN conjunct2, THEN conjunct2, THEN conjunct1]
  have k0: "tagsKept W0" unfolding W0_def .
  from T [where w = W0 and r = "CallReadFile 9",
      THEN conjunct2, THEN conjunct2, THEN conjunct2, THEN conjunct2, THEN conjunct2,
      THEN conjunct2, THEN conjunct2, THEN conjunct2, THEN conjunct2, THEN conjunct2,
      THEN conjunct1] k0
  have k1: "tagsKept W1" unfolding W1_def by simp
  from T [where w = W1 and k = 0 and err = None and listening = False and w' = W2,
      THEN conjunct2, THEN conjunct2, THEN conjunct2, THEN conjunct2, THEN conjunct2,
      THEN conjunct2, THEN conjunct2, THEN conjunct2, THEN conjunct1] k1 c2
  have k2: "tagsKept W2" by simp
  from T [where w = W2 and k = 0 and err = None and listening = False and w' = W3,
      THEN conjunct2, THEN conjunct2, THEN conjunct2, THEN conjunct2, THEN conjunct2,
      THEN conjunct2, THEN conjunct2, THEN conjunct2, THEN conjunct1] k2 c3
  have k3: "tagsKept W3" by simp
  from T [where w = W3 and k = 0 and err = None and listening = False and w' = W4,
      THEN conjunct2, THEN conjunct2, THEN conjunct2, THEN conjunct2, THEN conjunct2,
      THEN conjunct2, THEN conjunct2, THEN conjunct2, THEN conjunct1] k3 c4
  have k4: "tagsKept W4" by simp
  from T [where w = W4 and k = 0 and err = None and listening = False and w' = W5,
      THEN conjunct2, THEN conjunct2, THEN conjunct2, THEN conjunct2, THEN conjunct2,
      THEN conjunct2, THEN conjunct2, THEN conjunct2, THEN conjunct1] k4 c5
  have k5: "tagsKept W5" by simp
  from T [where w = W5 and tag = "''bina''" and fileId = 5 and dat = "IsBuffer ''hello''",
      THEN conjunct2, THEN conjunct2, THEN conjunct2, THEN conjunct2, THEN conjunct2,
      THEN conjunct2, THEN conjunct2, THEN conjunct2, THEN conjunct2, THEN conjunct1] k5 h5
  have k6: "tagsKept W6" unfolding W6_def by blast
  from T [where w = W6 and k = 1 and err = None and listening = False and w' = W7,
      THEN conjunct2, THEN conjunct2, THEN conjunct2, THEN conjunct2, THEN conjunct2,
      THEN conjunct2, THEN conjunct2, THEN conjunct2, THEN conjunct1] k6 c7
  have k7: "tagsKept W7" by simp
  from T [where w = W3 and k = 0 and fdn = 0 and len = 12 and off = 64
      and cb = "ReadFileRetry 9" and listening = False and ?w1.0 = W4 and j = 0 and v = W4
      and listening' = False and ?w2.0 = W5,
      THEN conjunct2, THEN conjunct2, THEN conjunct2, THEN conjunct2, THEN conjunct2,
      THEN conjunct1] p3 p4 c4 c5
  have i5: "list_all tableInvariant (tables (handle W5))" by blast
  from T [where w = W5, THEN conjunct1] i5
  have a5: "countsAgree (handle W5)" by simp
  from T [where w = W5 and r = "CallPutFile ''bina'' 5 (IsBuffer ''hello'')",
      THEN conjunct2, THEN conjunct1] a5
  have a6: "countsAgree (handle W6)" unfolding W6_def by blast
  from T [where w = W6 and k = 1 and err = None and listening = False and w' = W7,
      THEN conjunct2, THEN conjunct2, THEN conjunct1] a6 p6 c7
  have a7: "countsAgree (handle W7)" by blast
  from T [where w = W7,
      THEN conjunct2, THEN conjunct2, THEN conjunct2, THEN conjunct2, THEN conjunct2,
      THEN conjunct2, THEN conjunct2, THEN conjunct2, THEN conjunct2, THEN conjunct2,
      THEN conjunct2] k7 a7
  have i7: "list_all tableInvariant (tables (handle W7))" by blast
  from T [where contents = exampleArchive and da = "DRS ''f''"
      and db = "projr (readDirectory exampleArchive (DRS ''f''))",
      THEN conjunct2, THEN conjunct2, THEN conjunct2, THEN conjunct2, THEN conjunct2,
      THEN conjunct2, THEN conjunct1] d
  have i: "list_all tableInvariant (tables (projr (readDirectory exampleArchive (DRS ''f''))))"
    by blast
  from r k7 i7 i d show ?thesis by simp
qed

text \<open>
  The claim as stated fails for the directory read, which has no guard against what
  happens between its stages.
  \<^item> Two \<^verbatim>\<open>readFile\<close> calls issued one after the other on a fresh handle each start a
    directory read; the second read's \<open>onTableInfo\<close> replaces the tables, and then both
    reads' \<open>onTables\<close> push their entries onto the tables that are current. On the example
    archive the table ends with \<^verbatim>\<open>numFiles\<close> 1 and two entries.
  \<^item> With a single read: a \<^verbatim>\<open>putFile('bina', 5, hello)\<close> called and completed between
    \<open>onTableInfo\<close> and \<open>onTables\<close> appends its entry and sets the count to 1; \<open>onTables\<close>
    then appends the entry 9 and leaves the count at 1.
  \<^item> With a single read whose last \<^verbatim>\<open>fs.read\<close> fails: \<open>onTables\<close> hands the error to the
    callback and the table stays as \<open>onTableInfo\<close> left it, with the count 1 and no entry.
\<close>

theorem overlapping_reads_counterexample:
  "tablesAfter
     [Call (CallReadFile 9), Call (CallReadFile 9),
      Turn 0 None False, Turn 0 None False, Turn 0 None False, Turn 0 None False,
      Turn 0 None False, Turn 0 None False, Turn 0 None False, Turn 0 None False]
     (newWorld ''f'' exampleArchive)
   = Inr [\<lparr> ext = ''bina'', table_offset = Some 76, numFiles = 1,
              files = [\<lparr> file_id = 9, file_offset = Some 88, file_size = Some 8,
                         file_type = ''bina'', file_buffer = None \<rparr>,
                       \<lparr> file_id = 9, file_offset = Some 88, file_size = Some 8,
                         file_type = ''bina'', file_buffer = None \<rparr>] \<rparr>]
   \<and> tablesAfter
     [Call (CallReadFile 9), Turn 0 None False, Turn 0 None False, Turn 0 None False,
      Call (CallPutFile ''bina'' 5 (IsBuffer ''hello'')), Turn 1 None False,
      Turn 0 None False]
     (newWorld ''f'' exampleArchive)
   = Inr [\<lparr> ext = ''bina'', table_offset = Some 76, numFiles = 1,
              files = [\<lparr> file_id = 5, file_offset = None, file_size = Some 5,
                         file_type = ''bina'', file_buffer = Some ''hello'' \<rparr>,
                       \<lparr> file_id = 9, file_offset = Some 88, file_size = Some 8,
                         file_type = ''bina'', file_buffer = None \<rparr>] \<rparr>]
   \<and> tablesAfter
     [Call (CallReadFile 9), Turn 0 None False, Turn 0 None False, Turn 0 None False,
      Turn 0 (Some (SystemError ''EIO'')) False]
     (newWorld ''f'' exampleArchive)
   = Inr [\<lparr> ext = ''bina'', table_offset = Some 76, numFiles = 1, files = [] \<rparr>]
   \<and> noticesAfter
     [Call (CallReadFile 9), Turn 0 None False, Turn 0 None False, Turn 0 None False,
      Turn 0 (Some (SystemError ''EIO'')) False]
     (newWorld ''f'' exampleArchive)
   = Inr [ReadFileCb (Inl (SystemError ''EIO''))]"
  by code_simp

section \<open>Proofs: implicit loads and reading entries\<close>

lemma pending_notify [simp]: "pending (notify n w) = pending w"
  by (simp add: notify_def)

lemma pending_issue [simp]: "pending (issue x w) = pending w @ [x]"
  by (simp add: issue_def)

lemma loadsInFlight_streams [simp]: "loadsInFlight (w\<lparr> streams := n \<rparr>) = loadsInFlight w"
  by (simp add: loadsInFlight_def)

lemma loadsInFlight_read: "loadsInFlight (read cb w) = loadsInFlight w + 1"
  by (simp add: read_def open_def issue_def loadsInFlight_def split: option.splits)

lemma loadsInFlight_notify [simp]: "loadsInFlight (notify n w) = loadsInFlight w"
  by (simp add: notify_def loadsInFlight_def)

lemma loadsInFlight_readFile_loaded:
  "\<not> notNumTables (handle w) \<Longrightarrow> readFile fileId w = Inr w' \<Longrightarrow> loadsInFlight w' = loadsInFlight w"
  by (auto simp add: readFile_def andThen_Inr loadsInFlight_def
      split: sum.splits option.splits if_splits)

lemma loadsInFlight_onread:
  "onread s fileId None listening w = Inr w' \<Longrightarrow> loadsInFlight w' = loadsInFlight w"
  by (auto simp add: onread_def andThen_Inr loadsInFlight_def Let_def emit_error_def
      split: sum.splits option.splits if_splits prod.splits)

text \<open>
  C6 (as amended). The only test the handle makes before it starts a directory load is
  \<^verbatim>\<open>!this.numTables\<close>, in \<^verbatim>\<open>readFile\<close> and in \<^verbatim>\<open>createReadStream\<close>; there is no flag for a
  load in flight and no queue.
  \<^item> Every \<^verbatim>\<open>readFile\<close> or \<^verbatim>\<open>createReadStream\<close> call made while the handle has no
    \<^verbatim>\<open>numTables\<close> yet starts a directory load of its own, whatever is already in flight:
    the number of loads in flight grows by one with each such call.
  \<^item> A \<^verbatim>\<open>readFile\<close> or \<^verbatim>\<open>createReadStream\<close> call made while \<^verbatim>\<open>numTables\<close> is set and not 0
    starts no load.
  \<^item> A call of the lookup \<^verbatim>\<open>getFile\<close> or of the enumeration \<^verbatim>\<open>getFiles\<close> starts no load in
    any state: it leaves the handle and the operations in flight as they are, and answers
    from the table list as it is at the time of the call. On a handle whose table list is
    empty the answers are \<^verbatim>\<open>null\<close> and the empty list.
\<close>

theorem implicit_load_per_call:
  "(numTables (handle w) = None \<longrightarrow>
      (\<exists>w1. readFile fileId w = Inr w1 \<and> loadsInFlight w1 = loadsInFlight w + 1)
      \<and> (\<exists>w2. createReadStream fileId w = Inr w2 \<and> loadsInFlight w2 = loadsInFlight w + 1)
      \<and> loadsInFlight (call (CallReadFile fileId) w) = loadsInFlight w + 1
      \<and> loadsInFlight (call (CallCreateReadStream fileId) w) = loadsInFlight w + 1)
   \<and> (numTables (handle w) = Some n \<and> n \<noteq> 0 \<longrightarrow>
        loadsInFlight (call (CallReadFile fileId) w) = loadsInFlight w
        \<and> loadsInFlight (call (CallCreateReadStream fileId) w) = loadsInFlight w)
   \<and> pending (call (CallGetFile fileId) w) = pending w
   \<and> handle (call (CallGetFile fileId) w) = handle w
   \<and> loadsInFlight (call (CallGetFile fileId) w) = loadsInFlight w
   \<and> notices (call (CallGetFile fileId) w)
        = notices w @ [GetFileResult (getFile (handle w) fileId)]
   \<and> pending (call CallGetFiles w) = pending w
   \<and> handle (call CallGetFiles w) = handle w
   \<and> loadsInFlight (call CallGetFiles w) = loadsInFlight w
   \<and> notices (call CallGetFiles w) = notices w @ [GetFilesResult (getFiles (handle w))]
   \<and> (tables (handle w) = [] \<longrightarrow>
        getFile (handle w) fileId = Inr None \<and> getFiles (handle w) = [])"
proof (intro conjI impI)
  assume n: "numTables (handle w) = None"
  then have nn: "notNumTables (handle w)" by (simp add: notNumTables_def)
  then show "\<exists>w1. readFile fileId w = Inr w1 \<and> loadsInFlight w1 = loadsInFlight w + 1"
    by (simp add: readFile_def loadsInFlight_read)
  from nn show "\<exists>w2. createReadStream fileId w = Inr w2 \<and> loadsInFlight w2 = loadsInFlight w + 1"
    by (simp add: createReadStream_def Let_def loadsInFlight_read)
  from nn show "loadsInFlight (call (CallReadFile fileId) w) = loadsInFlight w + 1"
    by (simp add: readFile_def loadsInFlight_read)
  from nn show "loadsInFlight (call (CallCreateReadStream fileId) w) = loadsInFlight w + 1"
    by (simp add: createReadStream_def Let_def loadsInFlight_read)
next
  assume a: "numTables (handle w) = Some n \<and> n \<noteq> 0"
  then have na: "\<not> notNumTables (handle w)" by (simp add: notNumTables_def)
  show "loadsInFlight (call (CallReadFile fileId) w) = loadsInFlight w"
  proof (cases "readFile fileId w")
    case (Inl e)
    then show ?thesis by simp
  next
    case (Inr w')
    from loadsInFlight_readFile_loaded [OF na Inr] Inr show ?thesis by simp
  qed
  show "loadsInFlight (call (CallCreateReadStream fileId) w) = loadsInFlight w"
  proof (cases "createReadStream fileId w")
    case (Inl e)
    then show ?thesis by simp
  next
    case (Inr w')
    with na have "onread (streams w) fileId None False (w\<lparr> streams := streams w + 1 \<rparr>) = Inr w'"
      by (simp add: createReadStream_def Let_def)
    from loadsInFlight_onread [OF this] Inr show ?thesis by simp
  qed
next
  show "pending (call (CallGetFile fileId) w) = pending w" by simp
  show "handle (call (CallGetFile fileId) w) = handle w" by (simp add: notify_def)
  show "loadsInFlight (call (CallGetFile fileId) w) = loadsInFlight w" by simp
  show "notices (call (CallGetFile fileId) w)
        = notices w @ [GetFileResult (getFile (handle w) fileId)]" by (simp add: notify_def)
  show "pending (call CallGetFiles w) = pending w" by simp
  show "handle (call CallGetFiles w) = handle w" by (simp add: notify_def)
  show "loadsInFlight (call CallGetFiles w) = loadsInFlight w" by simp
  show "notices (call CallGetFiles w) = notices w @ [GetFilesResult (getFiles (handle w))]"
    by (simp add: notify_def)
next
  assume "tables (handle w) = []"
  then show "getFile (handle w) fileId = Inr None" and "getFiles (handle w) = []"
    by (simp_all add: getFile_def getFiles_def)
qed

text \<open>A witness. After one \<^verbatim>\<open>readFile(9)\<close> on a fresh handle, \<^verbatim>\<open>numTables\<close> is still missing
  and one load is in flight: a second \<^verbatim>\<open>readFile\<close> or a \<^verbatim>\<open>createReadStream\<close> makes it two.
  On a handle to which a table has been added (\<^verbatim>\<open>numTables\<close> is 1), \<^verbatim>\<open>readFile\<close> starts no
  load. On the handle with the empty table list, the lookup answers \<^verbatim>\<open>null\<close>.\<close>

theorem implicit_load_per_call_witness:
  "numTables (handle (call (CallReadFile 9) (newWorld ''f'' exampleArchive))) = None
   \<and> loadsInFlight (call (CallReadFile 9) (newWorld ''f'' exampleArchive)) = 1
   \<and> loadsInFlight (call (CallReadFile 9) (call (CallReadFile 9) (newWorld ''f'' exampleArchive))) = 2
   \<and> loadsInFlight (call (CallCreateReadStream 9)
        (call (CallReadFile 9) (newWorld ''f'' exampleArchive))) = 2
   \<and> numTables (handle ((newWorld ''f'' [])\<lparr> handle := fst (getTable (DRS ''f'') ''bina'') \<rparr>)) = Some 1
   \<and> loadsInFlight (call (CallReadFile 9)
        ((newWorld ''f'' [])\<lparr> handle := fst (getTable (DRS ''f'') ''bina'') \<rparr>)) = 0
   \<and> tables (handle (call (CallReadFile 9) (newWorld ''f'' exampleArchive))) = []
   \<and> getFile (handle (call (CallReadFile 9) (newWorld ''f'' exampleArchive))) 9 = Inr None"
proof -
  define w where "w = call (CallReadFile 9) (newWorld ''f'' exampleArchive)"
  define v where "v = (newWorld ''f'' [])\<lparr> handle := fst (getTable (DRS ''f'') ''bina'') \<rparr>"
  have n: "numTables (handle w) = None" unfolding w_def by code_simp
  have l: "loadsInFlight w = 1" unfolding w_def by code_simp
  have m: "numTables (handle v) = Some 1" unfolding v_def by code_simp
  have l0: "loadsInFlight v = 0" unfolding v_def by code_simp
  have t: "tables (handle w) = []" unfolding w_def by code_simp
  note a = implicit_load_per_call [of w 9 1]
  from a n have "loadsInFlight (call (CallReadFile 9) w) = loadsInFlight w + 1
      \<and> loadsInFlight (call (CallCreateReadStream 9) w) = loadsInFlight w + 1" by blast
  then have 1: "loadsInFlight (call (CallReadFile 9) w) = 2
      \<and> loadsInFlight (call (CallCreateReadStream 9) w) = 2" unfolding l by (simp add: numeral_2_eq_2)
  have z: "(1::int) \<noteq> 0" by simp
  from implicit_load_per_call [of v 9 1] m z
  have "loadsInFlight (call (CallReadFile 9) v) = loadsInFlight v" by blast
  with l0 have 2: "loadsInFlight (call (CallReadFile 9) v) = 0" by simp
  from a t have 3: "getFile (handle w) 9 = Inr None" by blast
  from n l 1 m 2 t 3 show ?thesis unfolding w_def v_def by blast
qed

text \<open>
  The claim as stated fails on two \<^verbatim>\<open>readFile\<close> calls issued one after the other on a
  fresh handle: two opens are in flight after the calls, and two header reads once both
  opens have completed. A lookup on the fresh handle answers not-found and leaves nothing
  in flight.
\<close>

theorem two_loads_in_flight_counterexample:
  "pendingAfter [Call (CallReadFile 9), Call (CallReadFile 9)] (newWorld ''f'' exampleArchive)
     = Inr [FsOpen (ReadOpen (ReadFileRetry 9)), FsOpen (ReadOpen (ReadFileRetry 9))]
   \<and> pendingAfter [Call (CallReadFile 9), Call (CallReadFile 9), Turn 0 None False, Turn 0 None False]
       (newWorld ''f'' exampleArchive)
     = Inr [FsReadHeader 0 (ReadFileRetry 9), FsReadHeader 1 (ReadFileRetry 9)]
   \<and> loadsInFlight (call (CallReadFile 9) (call (CallReadFile 9) (newWorld ''f'' exampleArchive))) = 2
   \<and> noticesAfter [Call (CallGetFile 9), Call CallGetFiles] (newWorld ''f'' exampleArchive)
     = Inr [GetFileResult (Inr None), GetFilesResult []]
   \<and> pendingAfter [Call (CallGetFile 9), Call CallGetFiles] (newWorld ''f'' exampleArchive) = Inr []"
  by code_simp

text \<open>
  C4 (the code departs from the claim). \<^verbatim>\<open>createReadStream\<close> serves an entry from its
  pending payload when it has one and from the file otherwise. \<^verbatim>\<open>readFile\<close> does not look
  at \<^verbatim>\<open>file.buffer\<close>: it always reads from the file, at \<^verbatim>\<open>file.offset\<close>, which is \<^verbatim>\<open>null\<close>
  for a pending entry, so the bytes come from the descriptor's current position.
  Evaluated on the example archive: the directory is loaded by \<^verbatim>\<open>readFile(9)\<close>, the entry
  99 is added with the payload \<^verbatim>\<open>hello\<close>, and then \<^verbatim>\<open>readFile(99)\<close> hands over the first
  five bytes of the archive file (\<^verbatim>\<open>xxxxx\<close>), while \<^verbatim>\<open>createReadStream(99)\<close> delivers
  \<^verbatim>\<open>hello\<close>.
\<close>

theorem readFile_ignores_pending_payload:
  "noticesAfter
     [Call (CallReadFile 9), Turn 0 None False, Turn 0 None False, Turn 0 None False,
      Turn 0 None False, Turn 0 None False,
      Call (CallPutFile ''bina'' 99 (IsBuffer ''hello'')), Turn 0 None False,
      Call (CallReadFile 99), Turn 0 None False,
      Call (CallCreateReadStream 99), Turn 0 None False]
     (newWorld ''f'' exampleArchive)
   = Inr [ReadFileCb (Inr (PaletteFile, ''JASC-PAL'',
            \<lparr> file_id = 9, file_offset = Some 88, file_size = Some 8, file_type = ''bina'',
              file_buffer = None \<rparr>)),
          PutFileCb (Inr \<lparr> file_id = 99, file_offset = None, file_size = Some 5,
              file_type = ''bina'', file_buffer = Some ''hello'' \<rparr>),
          ReadFileCb (Inr (DRSFile, ''xxxxx'',
            \<lparr> file_id = 99, file_offset = None, file_size = Some 5, file_type = ''bina'',
              file_buffer = Some ''hello'' \<rparr>)),
          Emit 0 (MetaEvent \<lparr> file_id = 99, file_offset = None, file_size = Some 5,
              file_type = ''bina'', file_buffer = Some ''hello'' \<rparr>),
          Emit 0 (DataEvent ''hello''), Emit 0 EndEvent]"
  by code_simp

end
